theory Spec2Isabelle
  imports Complex_Main
begin

unbundle bit_operations_syntax

section \<open>Linear convolution (convolve.c)\<close>

text \<open>
  A shallow embedding of \<^verbatim>\<open>src/convolve.c\<close>. Conventions:
  \<^item> \<^verbatim>\<open>float\<close> is modelled by \<open>real\<close>: every statement is about exact arithmetic.
  \<^item> \<^verbatim>\<open>size_t\<close> is an unsigned integer of 64 bits and \<^verbatim>\<open>int\<close> a signed one of 32 bits. A
    value of either type is held as the number it stands for, a \<open>nat\<close> below \<open>2 ^ 64\<close> or an
    \<open>int\<close> from \<open>- 2 ^ 31\<close> up to \<open>2 ^ 31 - 1\<close>; the reductions to the types are written out
    (section Machine integers).
  \<^item> An array is the list of its cells. Every read and write through a pointer checks the
    index against the list and yields \<open>OutOfBounds\<close> outside of it.
  \<^item> A failed \<^verbatim>\<open>assert\<close> is the error \<open>AssertionFailed\<close>, carrying the asserted
    expression. The assertions on the pointers that the caller passes have no counterpart,
    a list always exists; those on a pointer that \<^verbatim>\<open>mallocf\<close> returned test the allocation
    (section Library routines).
  \<^item> The preprocessor symbols the file tests are the fields of the record \<open>build\<close>.
\<close>

subsection \<open>Errors\<close>

text \<open>The ways in which a call fails: an assertion that does not hold, an access outside
  of an array, the read of a member of the handle that was never written, and a loop that
  does not end.\<close>

datatype error = AssertionFailed string | OutOfBounds | UninitializedHandle | DoesNotReturn

definition bindE :: "error + 'a \<Rightarrow> ('a \<Rightarrow> error + 'b) \<Rightarrow> error + 'b" where
  "bindE r f = (case r of Inl e \<Rightarrow> Inl e | Inr v \<Rightarrow> f v)"

definition assertE :: "bool \<Rightarrow> string \<Rightarrow> error + unit" where
  "assertE c msg = (if c then Inr () else Inl (AssertionFailed msg))"

subsection \<open>Machine integers\<close>

text \<open>\<open>to_size_t v\<close> is the \<^verbatim>\<open>size_t\<close> that an expression of the mathematical value \<open>v\<close> yields:
  arithmetic in \<^verbatim>\<open>size_t\<close> is arithmetic modulo \<open>2 ^ 64\<close>, and so is the conversion of an
  \<^verbatim>\<open>int\<close> to \<^verbatim>\<open>size_t\<close>.

  \<open>to_int v\<close> is the \<^verbatim>\<open>int\<close> with the low 32 bits of \<open>v\<close>, in two's complement. This is what
  the conversion of a \<^verbatim>\<open>size_t\<close> to \<^verbatim>\<open>int\<close> yields (the cast \<^verbatim>\<open>(int)\<close>, the initialisation
  of an \<^verbatim>\<open>int\<close> variable; defined by the implementation, and by gcc and clang as this
  reduction). It is also what the machine computes for \<^verbatim>\<open>+\<close>, \<^verbatim>\<open>-\<close> and \<^verbatim>\<open><<\<close> on \<^verbatim>\<open>int\<close>
  operands when the mathematical result does not fit; the C standard leaves the behaviour
  of such an operation undefined, and the theorems about returning calls below have
  bounds under which none occurs.

  The reductions are written in the functions that receive lengths from their caller:
  \<^verbatim>\<open>convolve_simd\<close>, the two initialisers and \<^verbatim>\<open>convolve_initialize\<close>. There every
  conversion of a length and every operation on the results is reduced, but for
  \<^item> the increment of an \<^verbatim>\<open>int\<close> that is below another \<^verbatim>\<open>int\<close>, and the sum of a transform
    size and \<open>2\<close> (no transform size exceeds \<open>2 ^ 30\<close>), which cannot leave the type;
  \<^item> an index into an array and a count passed to a memory routine, which are given by
    their mathematical value and checked against the array (sections Memory and Library
    routines).

  The two execute functions take their sizes from a handle. A handle that an initialiser
  returned has a transform size of at most \<open>2 ^ 30\<close>, above the kernel length (lemmas
  \<open>convolve_overlap_save_initialize_Inr\<close>, \<open>convolve_fft_initialize_Inr\<close>); with it, and
  with arrays of the recorded lengths, no expression of the execute functions leaves its
  type, and they are written over the unbounded integers.\<close>

definition to_size_t :: "int \<Rightarrow> nat" where
  "to_size_t v = nat (v mod 2 ^ 64)"

definition to_int :: "int \<Rightarrow> int" where
  "to_int v = (v + 2 ^ 31) mod 2 ^ 32 - 2 ^ 31"

subsection \<open>Memory\<close>

text \<open>\<^verbatim>\<open>p[i]\<close> as a read, and \<^verbatim>\<open>p[i] = v\<close>.\<close>

definition load :: "real list \<Rightarrow> int \<Rightarrow> error + real" where
  "load p i = (if 0 \<le> i \<and> i < int (length p) then Inr (p ! nat i) else Inl OutOfBounds)"

definition store :: "real list \<Rightarrow> int \<Rightarrow> real \<Rightarrow> error + real list" where
  "store p i v = (if 0 \<le> i \<and> i < int (length p) then Inr (p[nat i := v]) else Inl OutOfBounds)"

text \<open>\<open>read_range p off cnt\<close> reads the cells \<^verbatim>\<open>p[off .. off+cnt)\<close>; \<open>write_range p off vs\<close>
  writes \<open>vs\<close> at \<^verbatim>\<open>p + off\<close>. A negative count is what a \<^verbatim>\<open>size_t\<close> cannot hold and is
  refused like a range that leaves the array.\<close>

definition read_range :: "real list \<Rightarrow> int \<Rightarrow> int \<Rightarrow> error + real list" where
  "read_range p off cnt =
     (if 0 \<le> off \<and> 0 \<le> cnt \<and> off + cnt \<le> int (length p)
      then Inr (take (nat cnt) (drop (nat off) p)) else Inl OutOfBounds)"

definition write_range :: "real list \<Rightarrow> int \<Rightarrow> real list \<Rightarrow> error + real list" where
  "write_range p off vs =
     (if 0 \<le> off \<and> off + int (length vs) \<le> int (length p)
      then Inr (take (nat off) p @ vs @ drop (nat off + length vs) p) else Inl OutOfBounds)"

subsection \<open>Build configuration\<close>

text \<open>The symbols \<^verbatim>\<open>__AVX__\<close>, \<^verbatim>\<open>__ARM_NEON__\<close> and \<^verbatim>\<open>SIMD\<close>.\<close>

record build =
  AVX :: bool
  ARM_NEON :: bool
  SIMD :: bool

text \<open>Modelled from the spec: \<^verbatim>\<open>FLOAT_STEP\<close> is a macro of \<^verbatim>\<open>inc/simd/arithmetic.h\<close>, which
  is not among the sources; it is the number of floats of a vector register, the chunk
  sizes \<open>8\<close> and \<open>4\<close> of \<^verbatim>\<open>convolve_simd\<close>.\<close>

definition FLOAT_STEP :: "build \<Rightarrow> nat" where
  "FLOAT_STEP b = (if AVX b then 8 else 4)"

subsection \<open>Vector intrinsics\<close>

text \<open>A vector register is the list of its lanes, lane 0 first (the lowest address of a
  load). The AVX intrinsics on \<^verbatim>\<open>__m256\<close> (8 lanes) follow Intel's definitions, the NEON
  ones on \<^verbatim>\<open>float32x4_t\<close> and \<^verbatim>\<open>float32x2_t\<close> follow ARM's.\<close>

definition mm256_setzero_ps :: "real list" where
  "mm256_setzero_ps = replicate 8 0"

definition mm256_loadu_ps :: "real list \<Rightarrow> int \<Rightarrow> error + real list" where
  "mm256_loadu_ps p off = read_range p off 8"

definition mm256_permute2f128_ps :: "real list \<Rightarrow> real list \<Rightarrow> nat \<Rightarrow> real list" where
  "mm256_permute2f128_ps a b imm =
     (let sel = (\<lambda>c. if c mod 4 = 0 then take 4 a else if c mod 4 = 1 then drop 4 a
                      else if c mod 4 = 2 then take 4 b else drop 4 b);
          half = (\<lambda>c. if (c div 8) mod 2 = 1 then replicate 4 0 else sel c)
      in half (imm mod 16) @ half (imm div 16))"

definition mm256_permute_ps :: "real list \<Rightarrow> nat \<Rightarrow> real list" where
  "mm256_permute_ps a imm =
     map (\<lambda>i. a ! (4 * (i div 4) + (imm div 4 ^ (i mod 4)) mod 4)) [0, 1, 2, 3, 4, 5, 6, 7]"

definition mm256_mul_ps :: "real list \<Rightarrow> real list \<Rightarrow> real list" where
  "mm256_mul_ps a b = map2 (*) a b"

definition mm256_add_ps :: "real list \<Rightarrow> real list \<Rightarrow> real list" where
  "mm256_add_ps a b = map2 (+) a b"

definition mm256_hadd_ps :: "real list \<Rightarrow> real list \<Rightarrow> real list" where
  "mm256_hadd_ps a b =
     [a ! 0 + a ! 1, a ! 2 + a ! 3, b ! 0 + b ! 1, b ! 2 + b ! 3,
      a ! 4 + a ! 5, a ! 6 + a ! 7, b ! 4 + b ! 5, b ! 6 + b ! 7]"

text \<open>Modelled from the spec: \<^verbatim>\<open>_mm256_get_ps\<close> is a macro of \<^verbatim>\<open>inc/simd/arithmetic.h\<close>,
  which is not among the sources; it reads one lane of the accumulator ("reducing the
  vector accumulator to a scalar").\<close>

definition mm256_get_ps :: "real list \<Rightarrow> nat \<Rightarrow> real" where
  "mm256_get_ps a i = a ! i"

definition vdupq_n_f32 :: "real \<Rightarrow> real list" where
  "vdupq_n_f32 v = replicate 4 v"

definition vld1q_f32 :: "real list \<Rightarrow> int \<Rightarrow> error + real list" where
  "vld1q_f32 p off = read_range p off 4"

definition vrev64q_f32 :: "real list \<Rightarrow> real list" where
  "vrev64q_f32 a = [a ! 1, a ! 0, a ! 3, a ! 2]"

definition vget_low_f32 :: "real list \<Rightarrow> real list" where
  "vget_low_f32 a = take 2 a"

definition vget_high_f32 :: "real list \<Rightarrow> real list" where
  "vget_high_f32 a = drop 2 a"

definition vcombine_f32 :: "real list \<Rightarrow> real list \<Rightarrow> real list" where
  "vcombine_f32 lo hi = lo @ hi"

definition vmlaq_f32 :: "real list \<Rightarrow> real list \<Rightarrow> real list \<Rightarrow> real list" where
  "vmlaq_f32 a b c = map2 (+) a (map2 (*) b c)"

definition vpadd_f32 :: "real list \<Rightarrow> real list \<Rightarrow> real list" where
  "vpadd_f32 a b = [a ! 0 + a ! 1, b ! 0 + b ! 1]"

definition vget_lane_f32 :: "real list \<Rightarrow> nat \<Rightarrow> real" where
  "vget_lane_f32 a i = a ! i"

subsection \<open>The direct convolver: \<^verbatim>\<open>convolve_simd\<close>\<close>

lemma bindE_cong [fundef_cong]:
  "r = r' \<Longrightarrow> (\<And>v. r' = Inr v \<Longrightarrow> f v = f' v) \<Longrightarrow> bindE r f = bindE r' f'"
  by (cases r') (simp_all add: bindE_def)

text \<open>\<^verbatim>\<open>for (int m = from; m < en; m++) sum += h[m] * x[n - m];\<close>\<close>

function scalar_loop :: "real list \<Rightarrow> real list \<Rightarrow> int \<Rightarrow> int \<Rightarrow> int \<Rightarrow> real \<Rightarrow> error + real" where
  "scalar_loop x h n m en sm =
     (if m < en then
        bindE (load h m) (\<lambda>hv.
        bindE (load x (n - m)) (\<lambda>xv.
        scalar_loop x h n (m + 1) en (sm + hv * xv)))
      else Inr sm)"
  by pat_completeness auto
termination
  by (relation "measure (\<lambda>(x, h, n, m, en, sm). nat (en - m))") auto

declare scalar_loop.simps [simp del]

text \<open>The AVX loop over full chunks of 8, lines 60 to 67.\<close>

function avx_loop :: "real list \<Rightarrow> real list \<Rightarrow> int \<Rightarrow> int \<Rightarrow> int \<Rightarrow> real list \<Rightarrow> error + real list" where
  "avx_loop x h n m simdEnd accum =
     (if m < simdEnd then
        bindE (mm256_loadu_ps x (n - m - 7)) (\<lambda>xvec.
        bindE (mm256_loadu_ps h m) (\<lambda>hvec.
        let xvec1 = mm256_permute2f128_ps xvec xvec 1;
            xvec2 = mm256_permute_ps xvec1 27;
            mulres = mm256_mul_ps xvec2 hvec
        in avx_loop x h n (m + 8) simdEnd (mm256_add_ps accum mulres)))
      else Inr accum)"
  by pat_completeness auto
termination
  by (relation "measure (\<lambda>(x, h, n, m, simdEnd, accum). nat (simdEnd - m))") auto

declare avx_loop.simps [simp del]

text \<open>The NEON loop over full chunks of 4, lines 78 to 84.\<close>

function neon_loop :: "real list \<Rightarrow> real list \<Rightarrow> int \<Rightarrow> int \<Rightarrow> int \<Rightarrow> real list \<Rightarrow> error + real list" where
  "neon_loop x h n m simdEnd accum =
     (if m < simdEnd then
        bindE (vld1q_f32 x (n - m - 3)) (\<lambda>xvec.
        bindE (vld1q_f32 h m) (\<lambda>hvec.
        let xvec1 = vrev64q_f32 xvec;
            xvec2 = vcombine_f32 (vget_high_f32 xvec1) (vget_low_f32 xvec1)
        in neon_loop x h n (m + 4) simdEnd (vmlaq_f32 accum xvec2 hvec)))
      else Inr accum)"
  by pat_completeness auto
termination
  by (relation "measure (\<lambda>(x, h, n, m, simdEnd, accum). nat (simdEnd - m))") auto

declare neon_loop.simps [simp del]

text \<open>The body of the loop over \<open>n\<close> between the bounds and the store, lines 56 to 98: the
  three preprocessor variants of the inner sum.\<close>

definition inner_sum :: "build \<Rightarrow> int \<Rightarrow> real list \<Rightarrow> real list \<Rightarrow> int \<Rightarrow> int \<Rightarrow> int \<Rightarrow> error + real" where
  "inner_sum b simd x h n beg en =
     (if AVX b then
        (if simd \<noteq> 0 then
           (let simdEnd = to_int (beg + (to_int (en - beg) AND NOT 7)) in
            bindE (avx_loop x h n beg simdEnd mm256_setzero_ps) (\<lambda>accum.
            let accum1 = mm256_hadd_ps accum accum;
                accum2 = mm256_hadd_ps accum1 accum1;
                sm = mm256_get_ps accum2 0 + mm256_get_ps accum2 4
            in scalar_loop x h n simdEnd en sm))
         else scalar_loop x h n beg en 0)
      else if ARM_NEON b then
        (if simd \<noteq> 0 then
           (let simdEnd = to_int (beg + (to_int (en - beg) AND NOT 3)) in
            bindE (neon_loop x h n beg simdEnd (vdupq_n_f32 0)) (\<lambda>accum.
            let accum2 = vpadd_f32 (vget_high_f32 accum) (vget_low_f32 accum);
                sm = vget_lane_f32 accum2 0 + vget_lane_f32 accum2 1
            in scalar_loop x h n simdEnd en sm))
         else scalar_loop x h n beg en 0)
      else scalar_loop x h n beg en 0)"

text \<open>\<^verbatim>\<open>for (int n = 0; n < (int)(xLength + hLength - 1); n++)\<close>, with the bounds of the
  window, lines 51 to 55. The sum \<^verbatim>\<open>xLength + hLength - 1\<close> and the difference
  \<^verbatim>\<open>n - xLength + 1\<close> are computed in \<^verbatim>\<open>size_t\<close> and converted to \<^verbatim>\<open>int\<close>; \<^verbatim>\<open>(int)xLength\<close> and
  the assignment \<^verbatim>\<open>end = hLength\<close> convert a length to \<^verbatim>\<open>int\<close>.\<close>

function convolve_simd_loop ::
  "build \<Rightarrow> int \<Rightarrow> real list \<Rightarrow> nat \<Rightarrow> real list \<Rightarrow> nat \<Rightarrow> int \<Rightarrow> real list \<Rightarrow> error + real list" where
  "convolve_simd_loop b simd x xLength h hLength n result =
     (if n < to_int (int (to_size_t (int xLength + int hLength - 1))) then
        (let beg = (if n < to_int (int xLength) then 0
                    else to_int (int (to_size_t (n - int xLength + 1))));
             en0 = n + 1;
             en = (if en0 > to_int (int hLength) then to_int (int hLength) else en0)
         in bindE (inner_sum b simd x h n beg en) (\<lambda>sm.
            bindE (store result n sm) (\<lambda>result'.
            convolve_simd_loop b simd x xLength h hLength (n + 1) result')))
      else Inr result)"
  by pat_completeness auto
termination
  by (relation "measure (\<lambda>(b, simd, x, xLength, h, hLength, n, result).
        nat (to_int (int (to_size_t (int xLength + int hLength - 1))) - n))") auto

declare convolve_simd_loop.simps [simp del]

definition convolve_simd ::
  "build \<Rightarrow> int \<Rightarrow> real list \<Rightarrow> nat \<Rightarrow> real list \<Rightarrow> nat \<Rightarrow> real list \<Rightarrow> error + real list" where
  "convolve_simd b simd x xLength h hLength result =
     bindE (assertE (xLength > 0) ''xLength > 0'') (\<lambda>_.
     bindE (assertE (hLength > 0) ''hLength > 0'') (\<lambda>_.
     convolve_simd_loop b simd x xLength h hLength 0 result))"


subsection \<open>Library routines\<close>

text \<open>Modelled from the spec: \<^verbatim>\<open>mallocf\<close>, \<^verbatim>\<open>memsetf\<close>, \<^verbatim>\<open>rmemcpyf\<close> (of
  \<^verbatim>\<open>inc/simd/memory.h\<close>), \<^verbatim>\<open>complex_multiply\<close>, \<^verbatim>\<open>complex_multiply_na\<close> and
  \<^verbatim>\<open>real_multiply_scalar\<close> (of \<^verbatim>\<open>inc/simd/arithmetic.h\<close>) are not among the sources.
  \<^item> \<open>mallocf junk n\<close> is a fresh array of \<open>n\<close> floats; what an uninitialised cell holds is
    given by \<open>junk\<close>, about which nothing is assumed. The allocation of a count \<open>n \<ge> 0\<close> is
    taken to succeed. A negative \<^verbatim>\<open>int\<close> is, as the \<^verbatim>\<open>size_t\<close> that \<^verbatim>\<open>mallocf\<close> receives, a
    count of \<open>2 ^ 63\<close> floats or more: the allocation fails and the null pointer is
    returned, the array with no cells. An assertion on the pointer that \<^verbatim>\<open>mallocf\<close> has
    returned is the test \<open>0 \<le> n\<close>.
  \<^item> \<open>memsetf p off v n\<close> is \<^verbatim>\<open>memsetf(p + off, v, n)\<close>: \<open>n\<close> cells are set to \<open>v\<close>.
  \<^item> \<open>memcpy dst doff src soff n\<close> is \<^verbatim>\<open>memcpy(dst + doff, src + soff, n * sizeof(float))\<close>.
  \<^item> A count is given by its mathematical value. A count below \<open>0\<close> is, reduced to
    \<^verbatim>\<open>size_t\<close>, larger than any array: the copy leaves the array.
  \<^item> \<open>rmemcpyf dst src n\<close> copies \<open>n\<close> floats in reversed order ("reverses the sample order
    of the copied kernel").
  \<^item> \<open>complex_multiply_na a b i\<close> is \<^verbatim>\<open>complex_multiply_na(a + i, b + i, a + i)\<close>: the cells
    \<open>i\<close> and \<open>i + 1\<close> of \<open>a\<close> and \<open>b\<close> are the real and imaginary part of two complex numbers,
    whose product goes to \<open>a\<close>. \<open>complex_multiply b a c i\<close> does the same for the
    \<open>FLOAT_STEP / 2\<close> complex numbers of one vector register.
  \<^item> \<open>real_multiply_scalar src soff n v dst doff\<close> is
    \<^verbatim>\<open>real_multiply_scalar(src + soff, n, v, dst + doff)\<close>: \<open>n\<close> floats times \<open>v\<close>.
\<close>

definition mallocf :: "(nat \<Rightarrow> real) \<Rightarrow> int \<Rightarrow> real list" where
  "mallocf junk n = map junk [0..<nat n]"

definition memsetf :: "real list \<Rightarrow> int \<Rightarrow> real \<Rightarrow> int \<Rightarrow> error + real list" where
  "memsetf p off v n =
     (if 0 \<le> n then write_range p off (replicate (nat n) v) else Inl OutOfBounds)"

definition memcpy :: "real list \<Rightarrow> int \<Rightarrow> real list \<Rightarrow> int \<Rightarrow> int \<Rightarrow> error + real list" where
  "memcpy dst doff src soff n = bindE (read_range src soff n) (\<lambda>vs. write_range dst doff vs)"

definition rmemcpyf :: "real list \<Rightarrow> real list \<Rightarrow> int \<Rightarrow> error + real list" where
  "rmemcpyf dst src n = bindE (read_range src 0 n) (\<lambda>vs. write_range dst 0 (rev vs))"

definition complex_multiply_na :: "real list \<Rightarrow> real list \<Rightarrow> int \<Rightarrow> error + real list" where
  "complex_multiply_na a b i =
     bindE (read_range a i 2) (\<lambda>av.
     bindE (read_range b i 2) (\<lambda>bv.
     let re1 = av ! 0; im1 = av ! 1; re2 = bv ! 0; im2 = bv ! 1
     in write_range a i [re1 * re2 - im1 * im2, re1 * im2 + re2 * im1]))"

fun complex_multiply_lanes :: "real list \<Rightarrow> real list \<Rightarrow> real list" where
  "complex_multiply_lanes (re1 # im1 # av) (re2 # im2 # bv) =
     (re1 * re2 - im1 * im2) # (re1 * im2 + re2 * im1) # complex_multiply_lanes av bv"
| "complex_multiply_lanes av bv = []"

definition complex_multiply :: "build \<Rightarrow> real list \<Rightarrow> real list \<Rightarrow> int \<Rightarrow> error + real list" where
  "complex_multiply b a c i =
     bindE (read_range a i (int (FLOAT_STEP b))) (\<lambda>av.
     bindE (read_range c i (int (FLOAT_STEP b))) (\<lambda>cv.
     write_range a i (complex_multiply_lanes av cv)))"

definition real_multiply_scalar ::
  "real list \<Rightarrow> int \<Rightarrow> int \<Rightarrow> real \<Rightarrow> real list \<Rightarrow> int \<Rightarrow> error + real list" where
  "real_multiply_scalar src soff n v dst doff =
     bindE (read_range src soff n) (\<lambda>vs. write_range dst doff (map (\<lambda>a. a * v) vs))"

subsection \<open>The transform backend\<close>

text \<open>Modelled from the spec: the transform backend (\<^verbatim>\<open>fftf\<close>) is an external library,
  "an opaque service exposing forward/inverse/batched transform plans over a fixed-size
  real buffer". It is modelled as the exact discrete Fourier transform, in place:
  \<^item> the forward transform of size \<open>L\<close> reads the \<open>L\<close> reals at the start of the buffer and
    writes the coefficients \<open>0 .. L div 2\<close> of their transform, each as its real and its
    imaginary part (for even \<open>L\<close> these are \<open>L + 2\<close> floats);
  \<^item> the backward transform reads these coefficients, completes them by conjugate
    symmetry and writes the \<open>L\<close> reals of the unnormalised inverse transform; the two
    cells behind them keep what they held.
  A plan holds the size and the buffers it is bound to and nothing else; creating a plan
  is taken to succeed.\<close>

definition dft_coeff :: "nat \<Rightarrow> real list \<Rightarrow> nat \<Rightarrow> complex" where
  "dft_coeff L buf k =
     (\<Sum>n = 0..<L. of_real (buf ! n) * cis (- (2 * pi * real k * real n / real L)))"

definition half_spectrum :: "real list \<Rightarrow> nat \<Rightarrow> complex" where
  "half_spectrum buf k = Complex (buf ! (2 * k)) (buf ! (2 * k + 1))"

definition full_spectrum :: "nat \<Rightarrow> real list \<Rightarrow> nat \<Rightarrow> complex" where
  "full_spectrum L buf k =
     (if k \<le> L div 2 then half_spectrum buf k else cnj (half_spectrum buf (L - k)))"

definition idft_sample :: "nat \<Rightarrow> real list \<Rightarrow> nat \<Rightarrow> real" where
  "idft_sample L buf n =
     Re (\<Sum>k = 0..<L. full_spectrum L buf k * cis (2 * pi * real k * real n / real L))"

definition fftf_forward :: "int \<Rightarrow> real list \<Rightarrow> error + real list" where
  "fftf_forward L buf =
     (if 0 < L \<and> 2 * (nat L div 2 + 1) \<le> length buf
      then Inr (concat (map (\<lambda>k. [Re (dft_coeff (nat L) buf k), Im (dft_coeff (nat L) buf k)])
                            [0..<nat L div 2 + 1])
                @ drop (2 * (nat L div 2 + 1)) buf)
      else Inl OutOfBounds)"

definition fftf_backward :: "int \<Rightarrow> real list \<Rightarrow> error + real list" where
  "fftf_backward L buf =
     (if 0 < L \<and> 2 * (nat L div 2 + 1) \<le> length buf
      then Inr (map (idft_sample (nat L) buf) [0..<nat L] @ drop (nat L) buf)
      else Inl OutOfBounds)"

subsection \<open>Handles\<close>

text \<open>The structures of \<^verbatim>\<open>inc/simd/convolve_structs.h\<close>, as the functions use them. A
  handle is passed by value and holds pointers to its buffers and to its transform size:
  in the model it holds the buffers and the size, and a function that writes to a buffer
  returns the handle with the new contents.\<close>

record ConvolutionFFTHandle =
  fft_M :: int
  fft_x_length :: nat
  fft_h_length :: nat
  fft_reverse :: int
  fft_inputs0 :: "real list"
  fft_inputs1 :: "real list"

record ConvolutionOverlapSaveHandle =
  os_x_length :: nat
  os_h_length :: nat
  os_reverse :: int
  os_L :: int
  os_H :: "real list"
  os_fft_boiler_plate :: "real list"

datatype ConvolutionAlgorithm =
  kConvolutionAlgorithmBruteForce | kConvolutionAlgorithmFFT | kConvolutionAlgorithmOverlapSave

text \<open>The union \<^verbatim>\<open>handle.handle\<close>: the member that was written last, or none.\<close>

datatype handle_union =
  unset | fft ConvolutionFFTHandle | os ConvolutionOverlapSaveHandle

record ConvolutionHandle =
  algorithm :: ConvolutionAlgorithm
  x_length :: nat
  h_length :: nat
  handle :: handle_union

subsection \<open>\<^verbatim>\<open>convolve_overlap_save_initialize\<close>\<close>

text \<open>\<^verbatim>\<open>while (L >>= 1) log++;\<close>, as it is in both initialisers. The shift of a negative
  \<^verbatim>\<open>int\<close> to the right is the arithmetic shift (defined by the implementation, and by gcc
  and clang as this): \<open>L div 2\<close>, rounded down. From a negative \<open>L\<close> the loop does not reach
  \<open>0\<close>: a run that does not end is \<open>None\<close>. A run that ends has at most 31 turns.\<close>

partial_function (option) shift_loop :: "int \<Rightarrow> int \<Rightarrow> int option" where
  "shift_loop L lg = (if L div 2 \<noteq> 0 then shift_loop (L div 2) (lg + 1) else Some lg)"

text \<open>\<^verbatim>\<open>int L = M\<close> converts the kernel length to \<^verbatim>\<open>int\<close>, and \<^verbatim>\<open>L = (1 << log)\<close> keeps the
  low 32 bits of the power of two.\<close>

definition convolve_overlap_save_initialize ::
  "(nat \<Rightarrow> real) \<Rightarrow> (nat \<Rightarrow> real) \<Rightarrow> nat \<Rightarrow> nat \<Rightarrow> error + ConvolutionOverlapSaveHandle" where
  "convolve_overlap_save_initialize junk1 junk2 xLength hLength =
     bindE (assertE (hLength < xLength div 2) ''hLength < xLength / 2'') (\<lambda>_.
     bindE (assertE (xLength > 0) ''xLength > 0'') (\<lambda>_.
     bindE (assertE (hLength > 0) ''hLength > 0'') (\<lambda>_.
     let M = hLength;
         L0 = to_int (int M)
     in case shift_loop L0 2 of
          None \<Rightarrow> Inl DoesNotReturn
        | Some lg \<Rightarrow>
            (let L = to_int (2 ^ nat lg)
             in bindE (assertE (0 \<le> L + 2) ''handle.H'') (\<lambda>_.
                bindE (memsetf (mallocf junk1 (L + 2)) (int M) 0 (L - int M)) (\<lambda>H.
                bindE (assertE (0 \<le> L + 2) ''handle.fft_boiler_plate'') (\<lambda>_.
                Inr \<lparr>os_x_length = xLength, os_h_length = hLength, os_reverse = 0, os_L = L,
                     os_H = H, os_fft_boiler_plate = mallocf junk2 (L + 2)\<rparr>)))))))"

text \<open>What the initialiser establishes about a handle, as the execute call relies on it:
  the transform size is four times the largest power of two that is at most the kernel
  length, and both buffers have two cells more.\<close>

definition os_handle_ok :: "ConvolutionOverlapSaveHandle \<Rightarrow> bool" where
  "os_handle_ok s = (0 < os_h_length s
     \<and> (\<exists>d. os_L s = 2 ^ (d + 2) \<and> 2 ^ d \<le> os_h_length s \<and> os_h_length s < 2 ^ (d + 1))
     \<and> int (length (os_H s)) = os_L s + 2 \<and> int (length (os_fft_boiler_plate s)) = os_L s + 2)"

subsection \<open>\<^verbatim>\<open>convolve_overlap_save\<close>\<close>

text \<open>The loop that multiplies the spectra, and the vectorised loop before it when \<^verbatim>\<open>SIMD\<close>
  is defined (lines 201 to 213, and 311 to 320).\<close>

function multiply_na_loop :: "real list \<Rightarrow> real list \<Rightarrow> int \<Rightarrow> int \<Rightarrow> error + real list" where
  "multiply_na_loop a c i L =
     (if i < L + 2 then bindE (complex_multiply_na a c i) (\<lambda>a'. multiply_na_loop a' c (i + 2) L)
      else Inr a)"
  by pat_completeness auto
termination
  by (relation "measure (\<lambda>(a, c, i, L). nat (L + 2 - i))") auto

declare multiply_na_loop.simps [simp del]

function multiply_simd_loop :: "build \<Rightarrow> real list \<Rightarrow> real list \<Rightarrow> int \<Rightarrow> int \<Rightarrow> error + real list" where
  "multiply_simd_loop b a c i L =
     (if i < L then bindE (complex_multiply b a c i) (\<lambda>a'.
        multiply_simd_loop b a' c (i + int (FLOAT_STEP b)) L)
      else Inr a)"
  by pat_completeness auto
termination
  by (relation "measure (\<lambda>(b, a, c, i, L). nat (L - i))") (auto simp: FLOAT_STEP_def)

declare multiply_simd_loop.simps [simp del]

definition multiply_spectra :: "build \<Rightarrow> real list \<Rightarrow> real list \<Rightarrow> int \<Rightarrow> error + real list" where
  "multiply_spectra b a c L =
     (if SIMD b then bindE (multiply_simd_loop b a c 0 L) (\<lambda>a'. multiply_na_loop a' c L L)
      else multiply_na_loop a c 0 L)"

text \<open>One turn of the loop over the blocks, lines 182 to 227: from the scratch buffer and
  the output to the scratch buffer and the output. Of the handle the loop reads
  \<^verbatim>\<open>handle.x_length\<close>, \<^verbatim>\<open>handle.h_length\<close> (which is \<open>M\<close>) and \<open>L\<close>; the buffers are
  arguments of their own.\<close>

definition overlap_save_block ::
  "build \<Rightarrow> nat \<Rightarrow> nat \<Rightarrow> int \<Rightarrow> real list \<Rightarrow> real list \<Rightarrow> int \<Rightarrow> nat
   \<Rightarrow> real list \<times> real list \<Rightarrow> error + real list \<times> real list" where
  "overlap_save_block b x_len h_len L x H step i st =
     (let M = int h_len; N = int x_len; bp = fst st; result = snd st
      in bindE
           (if i > 0 then
              (if int i + step \<le> N then memcpy bp 0 x (int i - (M - 1)) L
               else (let cl = N - int i + M - 1
                     in bindE (memcpy bp 0 x (int i - (M - 1)) cl) (\<lambda>bp'.
                        memsetf bp' cl 0 (L - cl))))
            else bindE (memsetf bp 0 0 (M - 1)) (\<lambda>bp'. memcpy bp' (M - 1) x 0 step))
         (\<lambda>bp1.
         bindE (fftf_forward L bp1) (\<lambda>bp2.
         bindE (multiply_spectra b bp2 H L) (\<lambda>bp3.
         bindE (fftf_backward L bp3) (\<lambda>bp4.
         bindE (real_multiply_scalar bp4 (M - 1) step (1 / real_of_int L) bp4 (M - 1)) (\<lambda>bp5.
         bindE
           (if int i + step < N + M then memcpy result (int i) bp5 (M - 1) step
            else memcpy result (int i) bp5 (M - 1) (N + M - 1 - int i))
         (\<lambda>result'. Inr (bp5, result'))))))))"

text \<open>\<^verbatim>\<open>for (size_t i = 0; i < handle.x_length + M - 1; i += step)\<close>. The loop does not end
  when \<open>step\<close> is not positive: a run that does not return is \<open>None\<close>.\<close>

partial_function (option) overlap_save_loop ::
  "build \<Rightarrow> nat \<Rightarrow> nat \<Rightarrow> int \<Rightarrow> real list \<Rightarrow> real list \<Rightarrow> int \<Rightarrow> nat
   \<Rightarrow> real list \<times> real list \<Rightarrow> (error + real list \<times> real list) option" where
  "overlap_save_loop b x_len h_len L x H step i st =
     (if int i < int x_len + int h_len - 1 then
        (let r = overlap_save_block b x_len h_len L x H step i st
         in if isl r then Some (Inl (projl r))
            else overlap_save_loop b x_len h_len L x H step (nat (int i + step)) (projr r))
      else Some (Inr st))"

text \<open>The call returns the handle, whose buffers it has written to, and the output.\<close>

definition convolve_overlap_save ::
  "build \<Rightarrow> ConvolutionOverlapSaveHandle \<Rightarrow> real list \<Rightarrow> real list \<Rightarrow> real list
   \<Rightarrow> (error + ConvolutionOverlapSaveHandle \<times> real list) option" where
  "convolve_overlap_save b hdl x h result =
     (let M = int (os_h_length hdl); L = os_L hdl;
          prep =
            bindE (if os_reverse hdl \<noteq> 0 then rmemcpyf (os_fft_boiler_plate hdl) h (int (os_h_length hdl))
                   else memcpy (os_fft_boiler_plate hdl) 0 h 0 (int (os_h_length hdl))) (\<lambda>bp1.
            bindE (memsetf bp1 (int (os_h_length hdl)) 0 (L - int (os_h_length hdl))) (\<lambda>bp2.
            bindE (fftf_forward L bp2) (\<lambda>bp3.
            bindE (memcpy (os_H hdl) 0 bp3 0 (L + 2)) (\<lambda>H. Inr (bp3, H)))))
      in if isl prep then Some (Inl (projl prep))
         else (let bp3 = fst (projr prep); H = snd (projr prep); step = L - (M - 1)
               in map_option
                    (\<lambda>r. bindE r (\<lambda>st.
                       Inr (hdl\<lparr>os_H := H, os_fft_boiler_plate := fst st\<rparr>, snd st)))
                    (overlap_save_loop b (os_x_length hdl) (os_h_length hdl) L x H step 0
                       (bp3, result))))"

subsection \<open>\<^verbatim>\<open>convolve_fft_initialize\<close> and \<^verbatim>\<open>convolve_fft\<close>\<close>

text \<open>\<^verbatim>\<open>int M = xLength + hLength - 1\<close> converts the sum, computed in \<^verbatim>\<open>size_t\<close>, to \<^verbatim>\<open>int\<close>;
  \<^verbatim>\<open>M = (1 << log)\<close> keeps the low 32 bits of the power of two. The pointers \<^verbatim>\<open>X\<close> and \<^verbatim>\<open>H\<close>
  are not tested before they are written through.\<close>

definition convolve_fft_initialize ::
  "(nat \<Rightarrow> real) \<Rightarrow> (nat \<Rightarrow> real) \<Rightarrow> nat \<Rightarrow> nat \<Rightarrow> error + ConvolutionFFTHandle" where
  "convolve_fft_initialize junk1 junk2 xLength hLength =
     bindE (assertE (hLength > 0) ''hLength > 0'') (\<lambda>_.
     bindE (assertE (xLength > 0) ''xLength > 0'') (\<lambda>_.
     let M0 = to_int (int (to_size_t (int xLength + int hLength - 1)))
     in bindE (if M0 AND to_int (M0 - 1) \<noteq> 0
               then (case shift_loop M0 1 of
                       None \<Rightarrow> Inl DoesNotReturn
                     | Some lg \<Rightarrow> Inr (to_int (2 ^ nat lg)))
               else Inr M0) (\<lambda>M.
        bindE (memsetf (mallocf junk1 (M + 2)) (int xLength) 0 (M + 2 - int xLength)) (\<lambda>X.
        bindE (memsetf (mallocf junk2 (M + 2)) (int hLength) 0 (M + 2 - int hLength)) (\<lambda>H.
        Inr \<lparr>fft_M = M, fft_x_length = xLength, fft_h_length = hLength, fft_reverse = 0,
             fft_inputs0 = X, fft_inputs1 = H\<rparr>)))))"

definition convolve_fft ::
  "build \<Rightarrow> ConvolutionFFTHandle \<Rightarrow> real list \<Rightarrow> real list \<Rightarrow> real list
   \<Rightarrow> error + ConvolutionFFTHandle \<times> real list" where
  "convolve_fft b hdl x h result =
     (let xLength = int (fft_x_length hdl); hLength = int (fft_h_length hdl); M = fft_M hdl
      in bindE (memcpy (fft_inputs0 hdl) 0 x 0 xLength) (\<lambda>X1.
         bindE (if fft_reverse hdl \<noteq> 0 then rmemcpyf (fft_inputs1 hdl) h hLength
                else memcpy (fft_inputs1 hdl) 0 h 0 hLength) (\<lambda>H1.
         bindE (fftf_forward M X1) (\<lambda>X2.
         bindE (fftf_forward M H1) (\<lambda>H2.
         bindE (multiply_spectra b X2 H2 M) (\<lambda>X3.
         bindE (fftf_backward M X3) (\<lambda>X4.
         bindE (real_multiply_scalar X4 0 (xLength + hLength - 1) (1 / real_of_int M) result 0)
         (\<lambda>result'. Inr (hdl\<lparr>fft_inputs0 := X4, fft_inputs1 := H2\<rparr>, result')))))))))"

subsection \<open>\<^verbatim>\<open>convolve_initialize\<close> and \<^verbatim>\<open>convolve\<close>\<close>

text \<open>The product \<^verbatim>\<open>hLength * 2\<close> is computed in \<^verbatim>\<open>size_t\<close>.\<close>

definition convolve_initialize ::
  "build \<Rightarrow> (nat \<Rightarrow> real) \<Rightarrow> (nat \<Rightarrow> real) \<Rightarrow> nat \<Rightarrow> nat \<Rightarrow> error + ConvolutionHandle" where
  "convolve_initialize b junk1 junk2 xLength hLength =
     (let hdl0 = \<lparr>algorithm = kConvolutionAlgorithmBruteForce, x_length = xLength,
                 h_length = hLength, handle = unset\<rparr>
      in if ARM_NEON b then
           (if xLength > to_size_t (int hLength * 2) then
              (if xLength > 200 then
                 bindE (convolve_overlap_save_initialize junk1 junk2 xLength hLength) (\<lambda>h.
                 Inr (hdl0\<lparr>algorithm := kConvolutionAlgorithmOverlapSave, handle := os h\<rparr>))
               else Inr (hdl0\<lparr>algorithm := kConvolutionAlgorithmBruteForce\<rparr>))
            else
              (if xLength > 50 then
                 bindE (convolve_fft_initialize junk1 junk2 xLength hLength) (\<lambda>h.
                 Inr (hdl0\<lparr>algorithm := kConvolutionAlgorithmFFT, handle := fft h\<rparr>))
               else Inr (hdl0\<lparr>algorithm := kConvolutionAlgorithmBruteForce\<rparr>)))
         else
           (if xLength > to_size_t (int hLength * 2) then
              (if xLength > 200 then
                 bindE (convolve_overlap_save_initialize junk1 junk2 xLength hLength) (\<lambda>h.
                 Inr (hdl0\<lparr>algorithm := kConvolutionAlgorithmOverlapSave, handle := os h\<rparr>))
               else Inr (hdl0\<lparr>algorithm := kConvolutionAlgorithmBruteForce\<rparr>))
            else
              (if xLength > 350 then
                 bindE (convolve_fft_initialize junk1 junk2 xLength hLength) (\<lambda>h.
                 Inr (hdl0\<lparr>algorithm := kConvolutionAlgorithmFFT, handle := fft h\<rparr>))
               else Inr (hdl0\<lparr>algorithm := kConvolutionAlgorithmBruteForce\<rparr>))))"

text \<open>\<^verbatim>\<open>convolve\<close> reads the member of the union that the tag names; reading a member
  that was not written is \<open>UninitializedHandle\<close>.\<close>

definition convolve ::
  "build \<Rightarrow> ConvolutionHandle \<Rightarrow> real list \<Rightarrow> real list \<Rightarrow> real list
   \<Rightarrow> (error + ConvolutionHandle \<times> real list) option" where
  "convolve b hdl x h result =
     (case algorithm hdl of
        kConvolutionAlgorithmFFT \<Rightarrow>
          (case handle hdl of
             fft f \<Rightarrow> Some (bindE (convolve_fft b f x h result) (\<lambda>(f', r). Inr (hdl\<lparr>handle := fft f'\<rparr>, r)))
           | _ \<Rightarrow> Some (Inl UninitializedHandle))
      | kConvolutionAlgorithmOverlapSave \<Rightarrow>
          (case handle hdl of
             os s \<Rightarrow> map_option (\<lambda>r. bindE r (\<lambda>(s', r). Inr (hdl\<lparr>handle := os s'\<rparr>, r)))
                       (convolve_overlap_save b s x h result)
           | _ \<Rightarrow> Some (Inl UninitializedHandle))
      | kConvolutionAlgorithmBruteForce \<Rightarrow>
          Some (bindE (convolve_simd b 1 x (x_length hdl) h (h_length hdl) result) (\<lambda>r. Inr (hdl, r))))"

subsection \<open>Concrete configurations\<close>

text \<open>Three builds and a content of fresh memory, for statements about concrete runs.\<close>

definition avx_build :: build where
  "avx_build = \<lparr>AVX = True, ARM_NEON = False, SIMD = True\<rparr>"

definition neon_build :: build where
  "neon_build = \<lparr>AVX = False, ARM_NEON = True, SIMD = True\<rparr>"

definition plain_build :: build where
  "plain_build = \<lparr>AVX = False, ARM_NEON = False, SIMD = False\<rparr>"

definition junk0 :: "nat \<Rightarrow> real" where
  "junk0 n = 0"

text \<open>The contract of the direct convolver in the words of the specification: sample \<open>n\<close>
  of the output is the sum of \<open>h[m] * x[n - m]\<close> over \<open>m\<close> from \<open>max(0, n - N + 1)\<close> to
  \<open>min(n, M - 1)\<close>, and there are \<open>N + M - 1\<close> samples.\<close>

definition spec_out :: "real list \<Rightarrow> real list \<Rightarrow> nat \<Rightarrow> real" where
  "spec_out x h n =
     (\<Sum>m = max 0 (int n - int (length x) + 1)..min (int n) (int (length h) - 1).
        h ! nat m * x ! nat (int n - m))"

definition spec_convolution :: "real list \<Rightarrow> real list \<Rightarrow> real list" where
  "spec_convolution x h = map (spec_out x h) [0..<length x + length h - 1]"

text \<open>The circular convolution of the first \<open>L\<close> cells of two buffers, which a block of the
  overlap-save convolver computes; and the signal extended by zeros on both sides.\<close>

definition circular_convolution :: "nat \<Rightarrow> real list \<Rightarrow> real list \<Rightarrow> nat \<Rightarrow> real" where
  "circular_convolution L A C n =
     (\<Sum>a = 0..<L. \<Sum>c = 0..<L. if int L dvd int n - int a - int c then A ! a * C ! c else 0)"

definition zero_extended :: "real list \<Rightarrow> int \<Rightarrow> real" where
  "zero_extended x j = (if 0 \<le> j \<and> j < int (length x) then x ! nat j else 0)"

section \<open>Properties\<close>

subsection \<open>Basic facts\<close>

lemma bindE_Inr [simp]: "bindE (Inr v) f = f v"
  by (simp add: bindE_def)

lemma bindE_Inl [simp]: "bindE (Inl e) f = Inl e"
  by (simp add: bindE_def)

lemma to_int_id: "- (2 ^ 31) \<le> v \<Longrightarrow> v < 2 ^ 31 \<Longrightarrow> to_int v = v"
  by (simp add: to_int_def)

lemma to_int_range: "- (2 ^ 31) \<le> to_int v" "to_int v < 2 ^ 31"
proof -
  have "0 \<le> (v + 2 ^ 31) mod 2 ^ 32" "(v + 2 ^ 31) mod 2 ^ 32 < 2 ^ 32" by simp_all
  then show "- (2 ^ 31) \<le> to_int v" "to_int v < 2 ^ 31" by (simp_all add: to_int_def)
qed

lemma to_size_t_id: "0 \<le> v \<Longrightarrow> v < 2 ^ 64 \<Longrightarrow> to_size_t v = nat v"
  by (simp add: to_size_t_def)

lemma to_size_t_le: "0 \<le> v \<Longrightarrow> int (to_size_t v) \<le> v"
  by (simp add: to_size_t_def zmod_le_nonneg_dividend)

lemma to_int_to_size_t: "to_int (int (to_size_t v)) = to_int v"
proof -
  have "(v mod 2 ^ 64 + 2 ^ 31) mod 2 ^ 32 = (v mod 2 ^ 64 mod 2 ^ 32 + 2 ^ 31) mod (2 ^ 32 :: int)"
    by (simp add: mod_add_left_eq)
  also have "v mod 2 ^ 64 mod 2 ^ 32 = v mod (2 ^ 32 :: int)"
    by (rule mod_mod_cancel) simp
  also have "(v mod 2 ^ 32 + 2 ^ 31) mod 2 ^ 32 = (v + 2 ^ 31) mod (2 ^ 32 :: int)"
    by (simp add: mod_add_left_eq)
  finally show ?thesis by (simp add: to_int_def to_size_t_def)
qed

lemma to_int_pow2:
  "to_int (2 ^ k) = (if k < 31 then 2 ^ k else if k = 31 then - (2 ^ 31) else 0)"
proof -
  consider "k < 31" | "k = 31" | "32 \<le> k" by linarith
  then show ?thesis
  proof cases
    case 1
    then have "(2::int) ^ k \<le> 2 ^ 30" by (intro power_increasing) simp_all
    moreover have "- (2 ^ 31) \<le> (2::int) ^ k"
      by (rule order_trans [of _ 0]) simp_all
    ultimately have "to_int (2 ^ k) = 2 ^ k" by (intro to_int_id) simp_all
    then show ?thesis using 1 by simp
  next
    case 2
    then show ?thesis by (simp add: to_int_def)
  next
    case 3
    then obtain j where "k = 32 + j" using le_Suc_ex by blast
    then have "(2::int) ^ k = 2 ^ 32 * 2 ^ j" by (simp add: power_add)
    then have "((2::int) ^ k + 2 ^ 31) mod 2 ^ 32 = 2 ^ 31" by simp
    then show ?thesis using 3 by (simp add: to_int_def)
  qed
qed

lemma and_not_mask_int: "(d::int) AND NOT (mask k) = 2 ^ k * (d div 2 ^ k)"
proof -
  have "d - (d AND mask k) = d AND NOT (d AND mask k)"
    by (rule disjunctive_diff) (simp add: bit_simps)
  also have "\<dots> = d AND NOT (mask k)"
    by (auto simp add: bit_eq_iff bit_simps)
  finally have "d AND NOT (mask k) = d - d mod 2 ^ k"
    by (simp add: take_bit_eq_mask [symmetric] take_bit_eq_mod)
  then show ?thesis
    by (simp add: minus_mod_eq_mult_div)
qed

lemma and_not7: "(d::int) AND NOT 7 = 8 * (d div 8)"
  using and_not_mask_int [of d 3] by (simp add: mask_eq_exp_minus_1)

lemma and_not3: "(d::int) AND NOT 3 = 4 * (d div 4)"
  using and_not_mask_int [of d 2] by (simp add: mask_eq_exp_minus_1)

lemma sum_int_split:
  fixes f :: "int \<Rightarrow> real"
  assumes "a \<le> b" "b \<le> c"
  shows "sum f {a..<c} = sum f {a..<b} + sum f {b..<c}"
proof -
  have "{a..<c} = {a..<b} \<union> {b..<c}" using assms by auto
  then show ?thesis by (simp add: sum.union_disjoint)
qed

subsection \<open>The inner sum of the direct convolver\<close>

lemma scalar_loop_sum:
  "0 \<le> m \<Longrightarrow> en \<le> int (length h) \<Longrightarrow> n - m < int (length x) \<Longrightarrow> en - 1 \<le> n \<Longrightarrow>
   scalar_loop x h n m en s = Inr (s + (\<Sum>k = m..<en. h ! nat k * x ! nat (n - k)))"
proof (induction x h n m en s rule: scalar_loop.induct)
  case (1 x h n m en sm)
  show ?case
  proof (cases "m < en")
    case True
    have "{m..<en} = insert m {m + 1..<en}" using True by auto
    then have s: "(\<Sum>k = m..<en. h ! nat k * x ! nat (n - k))
        = h ! nat m * x ! nat (n - m) + (\<Sum>k = m + 1..<en. h ! nat k * x ! nat (n - k))"
      by simp
    have lh: "load h m = Inr (h ! nat m)" using True 1(2,3) by (simp add: load_def)
    have lx: "load x (n - m) = Inr (x ! nat (n - m))" using True 1(2-) by (simp add: load_def)
    have "scalar_loop x h n (m + 1) en (sm + h ! nat m * x ! nat (n - m))
        = Inr (sm + h ! nat m * x ! nat (n - m) + (\<Sum>k = m + 1..<en. h ! nat k * x ! nat (n - k)))"
      using 1(1) [OF True lh lx] 1(2-) True by simp
    then show ?thesis using True lh lx s by (subst scalar_loop.simps) simp
  next
    case False
    then show ?thesis by (subst scalar_loop.simps) simp
  qed
qed



lemma list8:
  assumes "length (a :: 'a list) = 8"
  obtains a0 a1 a2 a3 a4 a5 a6 a7 where "a = [a0, a1, a2, a3, a4, a5, a6, a7]"
proof -
  have "a = map (\<lambda>i. a ! i) [0..<8]" using assms by (metis map_nth)
  also have "[0..<8] = [0,1,2,3,4,5,6,7::nat]" by (simp add: upt_rec)
  finally show ?thesis using that by simp
qed

lemma list4:
  assumes "length (a :: 'a list) = 4"
  obtains a0 a1 a2 a3 where "a = [a0, a1, a2, a3]"
proof -
  have "a = map (\<lambda>i. a ! i) [0..<4]" using assms by (metis map_nth)
  also have "[0..<4] = [0,1,2,3::nat]" by (simp add: upt_rec)
  finally show ?thesis using that by simp
qed

lemma avx_reverse:
  assumes "length a = 8"
  shows "mm256_permute_ps (mm256_permute2f128_ps a a 1) 27 = rev a"
proof -
  obtain a0 a1 a2 a3 a4 a5 a6 a7 where "a = [a0, a1, a2, a3, a4, a5, a6, a7]"
    using assms by (rule list8)
  then show ?thesis
    by (simp add: mm256_permute_ps_def mm256_permute2f128_ps_def)
qed

lemma avx_reduce:
  assumes "length a = 8"
  shows "mm256_get_ps (mm256_hadd_ps (mm256_hadd_ps a a) (mm256_hadd_ps a a)) 0
       + mm256_get_ps (mm256_hadd_ps (mm256_hadd_ps a a) (mm256_hadd_ps a a)) 4 = sum_list a"
proof -
  obtain a0 a1 a2 a3 a4 a5 a6 a7 where "a = [a0, a1, a2, a3, a4, a5, a6, a7]"
    using assms by (rule list8)
  then show ?thesis
    by (simp add: mm256_get_ps_def mm256_hadd_ps_def)
qed

lemma neon_reverse:
  assumes "length a = 4"
  shows "vcombine_f32 (vget_high_f32 (vrev64q_f32 a)) (vget_low_f32 (vrev64q_f32 a)) = rev a"
proof -
  obtain a0 a1 a2 a3 where "a = [a0, a1, a2, a3]"
    using assms by (rule list4)
  then show ?thesis
    by (simp add: vcombine_f32_def vget_high_f32_def vget_low_f32_def vrev64q_f32_def)
qed

lemma neon_reduce:
  assumes "length a = 4"
  shows "vget_lane_f32 (vpadd_f32 (vget_high_f32 a) (vget_low_f32 a)) 0
       + vget_lane_f32 (vpadd_f32 (vget_high_f32 a) (vget_low_f32 a)) 1 = sum_list a"
proof -
  obtain a0 a1 a2 a3 where "a = [a0, a1, a2, a3]"
    using assms by (rule list4)
  then show ?thesis
    by (simp add: vget_lane_f32_def vpadd_f32_def vget_high_f32_def vget_low_f32_def)
qed

lemma sum_list_map2_add:
  "length a = length b \<Longrightarrow> sum_list (map2 (+) a b) = sum_list a + sum_list (b :: real list)"
  by (induction a b rule: list_induct2) simp_all

text \<open>The products of one chunk: x read backwards against h read forwards.\<close>

lemma chunk_products:
  fixes x h :: "real list"
  assumes "0 \<le> m" "m + int c \<le> int (length h)" "n - m < int (length x)" "m + int c - 1 \<le> n"
  shows "sum_list (map2 (*) (rev (take c (drop (nat (n - m - (int c - 1))) x))) (take c (drop (nat m) h)))
       = (\<Sum>k = m..<m + int c. h ! nat k * x ! nat (n - k))"
proof -
  let ?xv = "take c (drop (nat (n - m - (int c - 1))) x)"
  let ?hv = "take c (drop (nat m) h)"
  have lx: "length ?xv = c" using assms by (simp; linarith)
  have lh: "length ?hv = c" using assms by (simp; linarith)
  have "sum_list (map2 (*) (rev ?xv) ?hv) = (\<Sum>i = 0..<c. (map2 (*) (rev ?xv) ?hv) ! i)"
    using lx lh by (simp add: sum_list_sum_nth)
  also have "\<dots> = (\<Sum>i = 0..<c. h ! nat (m + int i) * x ! nat (n - (m + int i)))"
  proof (rule sum.cong)
    fix i assume "i \<in> {0..<c}"
    then have i: "i < c" by simp
    have a: "rev ?xv ! i = x ! nat (n - (m + int i))"
    proof -
      have "rev ?xv ! i = ?xv ! (c - Suc i)" using i lx by (simp add: rev_nth)
      also have "\<dots> = x ! (nat (n - m - (int c - 1)) + (c - Suc i))"
        using i assms by (simp; linarith)
      also have "nat (n - m - (int c - 1)) + (c - Suc i) = nat (n - (m + int i))"
        using i assms by linarith
      finally show ?thesis .
    qed
    have b: "?hv ! i = h ! nat (m + int i)"
    proof -
      have "?hv ! i = h ! (nat m + i)" using i assms by (simp; linarith)
      also have "nat m + i = nat (m + int i)" using assms by linarith
      finally show ?thesis .
    qed
    have "(map2 (*) (rev ?xv) ?hv) ! i = rev ?xv ! i * ?hv ! i"
      using i lx lh by simp
    then show "(map2 (*) (rev ?xv) ?hv) ! i = h ! nat (m + int i) * x ! nat (n - (m + int i))"
      by (simp only: a b mult.commute)
  qed simp
  also have "\<dots> = (\<Sum>k = m..<m + int c. h ! nat k * x ! nat (n - k))"
    by (rule sum.reindex_bij_witness [where i = "\<lambda>k. nat (k - m)" and j = "\<lambda>i. m + int i"]) auto
  finally show ?thesis .
qed


lemma avx_loop_sum:
  "0 \<le> m \<Longrightarrow> simdEnd \<le> int (length h) \<Longrightarrow> n - m < int (length x) \<Longrightarrow> simdEnd - 1 \<le> n \<Longrightarrow>
   (simdEnd - m) mod 8 = 0 \<Longrightarrow> length accum = 8 \<Longrightarrow>
   \<exists>acc'. avx_loop x h n m simdEnd accum = Inr acc' \<and> length acc' = 8 \<and>
     sum_list acc' = sum_list accum + (\<Sum>k = m..<simdEnd. h ! nat k * x ! nat (n - k))"
proof (induction x h n m simdEnd accum rule: avx_loop.induct)
  case (1 x h n m simdEnd accum)
  show ?case
  proof (cases "m < simdEnd")
    case True
    then have m8: "m + 8 \<le> simdEnd" using 1(6) by presburger
    let ?xv = "take 8 (drop (nat (n - m - 7)) x)"
    let ?hv = "take 8 (drop (nat m) h)"
    let ?acc = "mm256_add_ps accum (mm256_mul_ps (mm256_permute_ps (mm256_permute2f128_ps ?xv ?xv 1) 27) ?hv)"
    have lx: "mm256_loadu_ps x (n - m - 7) = Inr ?xv"
      using m8 1(2-) by (simp add: mm256_loadu_ps_def read_range_def)
    have lh: "mm256_loadu_ps h m = Inr ?hv"
      using m8 1(2-) by (simp add: mm256_loadu_ps_def read_range_def)
    have lenx: "length ?xv = 8" using m8 1(2-) by (simp; linarith)
    have lenh: "length ?hv = 8" using m8 1(2-) by (simp; linarith)
    have rv: "mm256_permute_ps (mm256_permute2f128_ps ?xv ?xv 1) 27 = rev ?xv"
      using lenx by (rule avx_reverse)
    have lacc: "length ?acc = 8"
      unfolding rv using lenx lenh 1(7) by (simp add: mm256_add_ps_def mm256_mul_ps_def)
    have chunk: "sum_list (map2 (*) (rev ?xv) ?hv) = (\<Sum>k = m..<m + 8. h ! nat k * x ! nat (n - k))"
      using chunk_products [of m 8 h n x] m8 1(2-) by simp
    have sacc: "sum_list ?acc = sum_list accum + (\<Sum>k = m..<m + 8. h ! nat k * x ! nat (n - k))"
      unfolding rv using lenx lenh 1(7) chunk by (simp add: mm256_add_ps_def mm256_mul_ps_def sum_list_map2_add)
    have "(simdEnd - (m + 8)) mod 8 = 0" using 1(6) by presburger
    then obtain acc' where r: "avx_loop x h n (m + 8) simdEnd ?acc = Inr acc'" "length acc' = 8"
      "sum_list acc' = sum_list ?acc + (\<Sum>k = m + 8..<simdEnd. h ! nat k * x ! nat (n - k))"
      using 1(1) [OF True lx lh refl refl refl _ _ _ _ _ lacc] m8 1(2-) by (auto simp: Let_def)
    have split: "(\<Sum>k = m..<simdEnd. h ! nat k * x ! nat (n - k))
        = (\<Sum>k = m..<m + 8. h ! nat k * x ! nat (n - k)) + (\<Sum>k = m + 8..<simdEnd. h ! nat k * x ! nat (n - k))"
      using m8 by (intro sum_int_split) simp_all
    have "avx_loop x h n m simdEnd accum = Inr acc'"
      using True lx lh r(1) by (subst avx_loop.simps) (simp add: Let_def)
    then show ?thesis using r(2,3) sacc split by simp
  next
    case False
    then show ?thesis using 1(7) by (subst avx_loop.simps) simp
  qed
qed


lemma neon_loop_sum:
  "0 \<le> m \<Longrightarrow> simdEnd \<le> int (length h) \<Longrightarrow> n - m < int (length x) \<Longrightarrow> simdEnd - 1 \<le> n \<Longrightarrow>
   (simdEnd - m) mod 4 = 0 \<Longrightarrow> length accum = 4 \<Longrightarrow>
   \<exists>acc'. neon_loop x h n m simdEnd accum = Inr acc' \<and> length acc' = 4 \<and>
     sum_list acc' = sum_list accum + (\<Sum>k = m..<simdEnd. h ! nat k * x ! nat (n - k))"
proof (induction x h n m simdEnd accum rule: neon_loop.induct)
  case (1 x h n m simdEnd accum)
  show ?case
  proof (cases "m < simdEnd")
    case True
    then have m4: "m + 4 \<le> simdEnd" using 1(6) by presburger
    let ?xv = "take 4 (drop (nat (n - m - 3)) x)"
    let ?hv = "take 4 (drop (nat m) h)"
    let ?acc = "vmlaq_f32 accum (vcombine_f32 (vget_high_f32 (vrev64q_f32 ?xv)) (vget_low_f32 (vrev64q_f32 ?xv))) ?hv"
    have lx: "vld1q_f32 x (n - m - 3) = Inr ?xv"
      using m4 1(2-) by (simp add: vld1q_f32_def read_range_def)
    have lh: "vld1q_f32 h m = Inr ?hv"
      using m4 1(2-) by (simp add: vld1q_f32_def read_range_def)
    have lenx: "length ?xv = 4" using m4 1(2-) by (simp; linarith)
    have lenh: "length ?hv = 4" using m4 1(2-) by (simp; linarith)
    have rv: "vcombine_f32 (vget_high_f32 (vrev64q_f32 ?xv)) (vget_low_f32 (vrev64q_f32 ?xv)) = rev ?xv"
      using lenx by (rule neon_reverse)
    have lacc: "length ?acc = 4"
      unfolding rv using lenx lenh 1(7) by (simp add: vmlaq_f32_def)
    have chunk: "sum_list (map2 (*) (rev ?xv) ?hv) = (\<Sum>k = m..<m + 4. h ! nat k * x ! nat (n - k))"
      using chunk_products [of m 4 h n x] m4 1(2-) by simp
    have sacc: "sum_list ?acc = sum_list accum + (\<Sum>k = m..<m + 4. h ! nat k * x ! nat (n - k))"
      unfolding rv using lenx lenh 1(7) chunk by (simp add: vmlaq_f32_def sum_list_map2_add)
    have "(simdEnd - (m + 4)) mod 4 = 0" using 1(6) by presburger
    then obtain acc' where r: "neon_loop x h n (m + 4) simdEnd ?acc = Inr acc'" "length acc' = 4"
      "sum_list acc' = sum_list ?acc + (\<Sum>k = m + 4..<simdEnd. h ! nat k * x ! nat (n - k))"
      using 1(1) [OF True lx lh refl refl _ _ _ _ _ lacc] m4 1(2-) by (auto simp: Let_def)
    have split: "(\<Sum>k = m..<simdEnd. h ! nat k * x ! nat (n - k))
        = (\<Sum>k = m..<m + 4. h ! nat k * x ! nat (n - k)) + (\<Sum>k = m + 4..<simdEnd. h ! nat k * x ! nat (n - k))"
      using m4 by (intro sum_int_split) simp_all
    have "neon_loop x h n m simdEnd accum = Inr acc'"
      using True lx lh r(1) by (subst neon_loop.simps) (simp add: Let_def)
    then show ?thesis using r(2,3) sacc split by simp
  next
    case False
    then show ?thesis using 1(7) by (subst neon_loop.simps) simp
  qed
qed

text \<open>Whatever the build and the flag, the inner sum is the sum over the window.\<close>

lemma inner_sum_eq:
  assumes "0 \<le> beg" "beg \<le> en" "en \<le> int (length h)" "n - beg < int (length x)" "en - 1 \<le> n"
    and "en < 2 ^ 31"
  shows "inner_sum b simd x h n beg en = Inr (\<Sum>k = beg..<en. h ! nat k * x ! nat (n - k))"
proof -
  let ?f = "\<lambda>k. h ! nat k * x ! nat (n - k)"
  have scalar: "scalar_loop x h n beg en 0 = Inr (sum ?f {beg..<en})"
    using scalar_loop_sum [of beg en h n x 0] assms by simp
  have avx: "bindE (avx_loop x h n beg (beg + ((en - beg) AND NOT 7)) mm256_setzero_ps) (\<lambda>accum.
            let accum1 = mm256_hadd_ps accum accum;
                accum2 = mm256_hadd_ps accum1 accum1;
                sm = mm256_get_ps accum2 0 + mm256_get_ps accum2 4
            in scalar_loop x h n (beg + ((en - beg) AND NOT 7)) en sm) = Inr (sum ?f {beg..<en})"
  proof -
    define se where "se = beg + ((en - beg) AND NOT 7)"
    have se: "se = beg + 8 * ((en - beg) div 8)" by (simp only: se_def and_not7)
    have b1: "beg \<le> se" using assms se by simp
    have b2: "se \<le> en" using assms se by simp
    have b3: "(se - beg) mod 8 = 0" using se by simp
    have z: "length mm256_setzero_ps = 8" "sum_list mm256_setzero_ps = 0"
      by (simp_all add: mm256_setzero_ps_def sum_list_replicate)
    have "\<exists>acc'. avx_loop x h n beg se mm256_setzero_ps = Inr acc' \<and> length acc' = 8 \<and>
        sum_list acc' = sum_list mm256_setzero_ps + sum ?f {beg..<se}"
      by (rule avx_loop_sum) (use assms b1 b2 b3 z in simp_all)
    then obtain acc where a: "avx_loop x h n beg se mm256_setzero_ps = Inr acc" "length acc = 8"
        "sum_list acc = sum ?f {beg..<se}"
      using z by auto
    have "scalar_loop x h n se en (sum_list acc) = Inr (sum_list acc + sum ?f {se..<en})"
      using scalar_loop_sum [of se en h n x] assms b1 b2 by simp
    also have "sum_list acc + sum ?f {se..<en} = sum ?f {beg..<en}"
      using a(3) sum_int_split [OF b1 b2, of ?f] by simp
    finally show ?thesis
      unfolding se_def [symmetric] Let_def using a(1,2) by (simp only: bindE_Inr avx_reduce)
  qed
  have neon: "bindE (neon_loop x h n beg (beg + ((en - beg) AND NOT 3)) (vdupq_n_f32 0)) (\<lambda>accum.
            let accum2 = vpadd_f32 (vget_high_f32 accum) (vget_low_f32 accum);
                sm = vget_lane_f32 accum2 0 + vget_lane_f32 accum2 1
            in scalar_loop x h n (beg + ((en - beg) AND NOT 3)) en sm) = Inr (sum ?f {beg..<en})"
  proof -
    define se where "se = beg + ((en - beg) AND NOT 3)"
    have se: "se = beg + 4 * ((en - beg) div 4)" by (simp only: se_def and_not3)
    have b1: "beg \<le> se" using assms se by simp
    have b2: "se \<le> en" using assms se by simp
    have b3: "(se - beg) mod 4 = 0" using se by simp
    have z: "length (vdupq_n_f32 0) = 4" "sum_list (vdupq_n_f32 0) = 0"
      by (simp_all add: vdupq_n_f32_def sum_list_replicate)
    have "\<exists>acc'. neon_loop x h n beg se (vdupq_n_f32 0) = Inr acc' \<and> length acc' = 4 \<and>
        sum_list acc' = sum_list (vdupq_n_f32 0) + sum ?f {beg..<se}"
      by (rule neon_loop_sum) (use assms b1 b2 b3 z in simp_all)
    then obtain acc where a: "neon_loop x h n beg se (vdupq_n_f32 0) = Inr acc" "length acc = 4"
        "sum_list acc = sum ?f {beg..<se}"
      using z by auto
    have "scalar_loop x h n se en (sum_list acc) = Inr (sum_list acc + sum ?f {se..<en})"
      using scalar_loop_sum [of se en h n x] assms b1 b2 by simp
    also have "sum_list acc + sum ?f {se..<en} = sum ?f {beg..<en}"
      using a(3) sum_int_split [OF b1 b2, of ?f] by simp
    finally show ?thesis
      unfolding se_def [symmetric] Let_def using a(1,2) by (simp only: bindE_Inr neon_reduce)
  qed
  have d: "to_int (en - beg) = en - beg" using assms by (intro to_int_id) simp_all
  have se7: "to_int (beg + (to_int (en - beg) AND NOT 7)) = beg + ((en - beg) AND NOT 7)"
    unfolding d and_not7 using assms by (intro to_int_id) simp_all
  have se3: "to_int (beg + (to_int (en - beg) AND NOT 3)) = beg + ((en - beg) AND NOT 3)"
    unfolding d and_not3 using assms by (intro to_int_id) simp_all
  show ?thesis
    unfolding inner_sum_def Let_def se7 se3 avx [unfolded Let_def] neon [unfolded Let_def] scalar
    by simp
qed




subsection \<open>The direct convolver\<close>

lemma convolve_simd_loop_eq:
  "length x = xLength \<Longrightarrow> length h = hLength \<Longrightarrow> 0 < xLength \<Longrightarrow> 0 < hLength \<Longrightarrow>
   xLength + hLength - 1 \<le> length result \<Longrightarrow> 0 \<le> n \<Longrightarrow> n \<le> int (xLength + hLength - 1) \<Longrightarrow>
   int (xLength + hLength - 1) < 2 ^ 31 \<Longrightarrow>
   convolve_simd_loop b simd x xLength h hLength n result =
     Inr (take (nat n) result @ map (spec_out x h) [nat n..<xLength + hLength - 1]
          @ drop (xLength + hLength - 1) result)"
proof (induction b simd x xLength h hLength n result rule: convolve_simd_loop.induct)
  case (1 b simd x xLength h hLength n result)
  let ?T = "xLength + hLength - 1"
  have T: "int xLength + int hLength - 1 = int ?T" using 1(4) by linarith
  have bound: "to_int (int (to_size_t (int xLength + int hLength - 1))) = int ?T"
    unfolding to_int_to_size_t T using 1(9) by (intro to_int_id) simp_all
  have cx: "to_int (int xLength) = int xLength" using 1(5,9) by (intro to_int_id) linarith+
  have ch: "to_int (int hLength) = int hLength" using 1(4,9) by (intro to_int_id) linarith+
  show ?case
  proof (cases "n < int ?T")
    case True
    have c: "n < to_int (int (to_size_t (int xLength + int hLength - 1)))"
      using True bound by simp
    define beg where "beg = (if n < to_int (int xLength) then 0
                    else to_int (int (to_size_t (n - int xLength + 1))))"
    define en where "en = (if n + 1 > to_int (int hLength) then to_int (int hLength) else n + 1)"
    have cb: "to_int (int (to_size_t (n - int xLength + 1))) = n - int xLength + 1"
      if "\<not> n < int xLength"
      unfolding to_int_to_size_t using that True 1(9) by (intro to_int_id) linarith+
    have beg2: "beg = (if n < int xLength then 0 else n - int xLength + 1)"
      using cb by (simp add: beg_def cx)
    have en2: "en = (if n + 1 > int hLength then int hLength else n + 1)"
      by (simp add: en_def ch)
    have beg': "beg = max 0 (int (nat n) - int (length x) + 1)"
      using 1(2,7) by (auto simp: beg2)
    have en': "en = min (int (nat n)) (int (length h) - 1) + 1"
      using 1(3,7) by (auto simp: en2)
    have bnds: "0 \<le> beg" "beg \<le> en" "en \<le> int (length h)" "n - beg < int (length x)" "en - 1 \<le> n"
        "en < 2 ^ 31"
      using True 1(2-) by (auto simp: beg2 en2)
    have "inner_sum b simd x h n beg en = Inr (\<Sum>k = beg..<en. h ! nat k * x ! nat (n - k))"
      using bnds by (rule inner_sum_eq)
    also have "(\<Sum>k = beg..<en. h ! nat k * x ! nat (n - k)) = spec_out x h (nat n)"
      unfolding spec_out_def beg' en' atLeastLessThanPlusOne_atLeastAtMost_int
      using 1(7) by simp
    finally have inner: "inner_sum b simd x h n beg en = Inr (spec_out x h (nat n))" .
    have st: "store result n (spec_out x h (nat n)) = Inr (result[nat n := spec_out x h (nat n)])"
      using True 1(6,7) by (simp add: store_def)
    let ?r = "result[nat n := spec_out x h (nat n)]"
    have ih: "convolve_simd_loop b simd x xLength h hLength (n + 1) ?r =
        Inr (take (nat (n + 1)) ?r @ map (spec_out x h) [nat (n + 1)..<?T] @ drop ?T ?r)"
      using 1(1) [OF c beg_def refl en_def inner st] 1(2-) True by simp
    have n1: "nat (n + 1) = Suc (nat n)" using 1(7) by simp
    have lt: "nat n < ?T" "nat n < length result" using True 1(6,7) by linarith+
    have t1: "take (Suc (nat n)) ?r = take (nat n) result @ [spec_out x h (nat n)]"
      using lt by (simp add: take_Suc_conv_app_nth)
    have t2: "drop ?T ?r = drop ?T result" using lt by simp
    have t3: "[nat n..<?T] = nat n # [Suc (nat n)..<?T]" using lt by (simp add: upt_conv_Cons)
    have "convolve_simd_loop b simd x xLength h hLength n result
        = bindE (inner_sum b simd x h n beg en) (\<lambda>sm. bindE (store result n sm) (\<lambda>result'.
            convolve_simd_loop b simd x xLength h hLength (n + 1) result'))"
      by (subst convolve_simd_loop.simps) (simp only: c if_True Let_def beg_def en_def)
    also have "\<dots> = convolve_simd_loop b simd x xLength h hLength (n + 1) ?r"
      by (simp only: inner st bindE_Inr)
    finally show ?thesis
      unfolding ih n1 t1 t2 t3 by simp
  next
    case False
    then have "nat n = ?T" using 1(8) by linarith
    then show ?thesis using False 1(6) by (subst convolve_simd_loop.simps) (simp add: bound)
  qed
qed


lemma convolve_simd_eq:
  assumes "length x = N" "length h = M" "0 < N" "0 < M" "N + M - 1 \<le> length result"
    and "int (N + M - 1) < 2 ^ 31"
  shows "convolve_simd b simd x N h M result =
     Inr (map (spec_out x h) [0..<N + M - 1] @ drop (N + M - 1) result)"
  using convolve_simd_loop_eq [OF assms(1-5) _ _ assms(6), of 0 b simd] assms
  by (simp add: convolve_simd_def assertE_def)

lemma sum_int_Icc_rec:
  fixes f :: "int \<Rightarrow> real"
  shows "sum f {a..b} = (if a \<le> b then f a + sum f {a + 1..b} else 0)"
proof (cases "a \<le> b")
  case True
  then have "{a..b} = insert a {a + 1..b}" by auto
  then show ?thesis using True by simp
next
  case False
  then show ?thesis by simp
qed

lemma spec_out_example:
  "map (spec_out [1, 2, 3] [0, 1, 1 / 2]) [0..<5] = [0, 1, 5 / 2, 4, 3 / 2]"
  by (simp add: spec_out_def upt_rec sum_int_Icc_rec)

text \<open>The loop of the direct convolver where its bound does not fit an \<^verbatim>\<open>int\<close>.\<close>

lemma convolve_simd_loop_stop:
  "\<not> n < to_int (int (to_size_t (int xLength + int hLength - 1))) \<Longrightarrow>
   convolve_simd_loop b simd x xLength h hLength n result = Inr result"
  by (subst convolve_simd_loop.simps) simp

text \<open>
  Claim C1 fails for a signal of \<open>2 ^ 31\<close> samples and a kernel of one sample: the bound
  \<^verbatim>\<open>(int)(xLength + hLength - 1)\<close> of the loop is \<open>- 2 ^ 31\<close>, the loop body is never run and
  the output buffer is returned as it was, with \<open>0\<close> in its first cell, where the sum of
  the claim is \<open>h[0] * x[0] = 1\<close>.
\<close>

theorem convolve_simd_contract_counterexample:
  "convolve_simd avx_build 1 (replicate (2 ^ 31) 1) (2 ^ 31) [1] 1 (replicate (2 ^ 31) 0)
     = Inr (replicate (2 ^ 31) 0)
   \<and> spec_out (replicate (2 ^ 31) 1) [1] 0 = 1"
proof -
  have "to_int (int (to_size_t (int (2 ^ 31) + int 1 - 1))) = - (2 ^ 31)"
    by (simp add: to_int_def to_size_t_def)
  then have "convolve_simd_loop avx_build 1 (replicate (2 ^ 31) 1) (2 ^ 31) [1] 1 0
      (replicate (2 ^ 31) 0) = Inr (replicate (2 ^ 31) 0)"
    by (intro convolve_simd_loop_stop) simp
  then have "convolve_simd avx_build 1 (replicate (2 ^ 31) 1) (2 ^ 31) [1] 1 (replicate (2 ^ 31) 0)
     = Inr (replicate (2 ^ 31) 0)"
    by (simp add: convolve_simd_def assertE_def)
  moreover have "spec_out (replicate (2 ^ 31) 1) [1] 0 = 1"
    by (simp add: spec_out_def)
  ultimately show ?thesis by simp
qed

text \<open>
  Claim C1, amended. For a signal \<open>x\<close> of length \<open>N > 0\<close> and a kernel \<open>h\<close> of length \<open>M > 0\<close>
  with \<open>N + M - 1 < 2 ^ 31\<close> (the number of output samples fits an \<^verbatim>\<open>int\<close>), and over exact
  real arithmetic, \<^verbatim>\<open>convolve_simd\<close> returns normally and has written, for each \<open>n\<close> in
  \<open>[0, N + M - 1)\<close>, the sum of \<open>h[m] * x[n - m]\<close> over \<open>m\<close> from \<open>max(0, n - N + 1)\<close> to
  \<open>min(n, M - 1)\<close> to \<open>out[n]\<close>, in every build and for either value of the \<open>simd\<close> flag; the
  cells of the output buffer behind these are left as they were. For \<open>x = [1, 2, 3]\<close> and
  \<open>h = [0, 1, 0.5]\<close> the output is \<open>[0, 1, 2.5, 4, 1.5]\<close>.
\<close>

theorem convolve_simd_contract:
  "length x = N \<Longrightarrow> length h = M \<Longrightarrow> 0 < N \<Longrightarrow> 0 < M \<Longrightarrow> N + M - 1 \<le> length result \<Longrightarrow>
   int (N + M - 1) < 2 ^ 31 \<Longrightarrow>
   convolve_simd b simd x N h M result =
     Inr (map (\<lambda>n. \<Sum>m = max 0 (int n - int N + 1)..min (int n) (int M - 1).
                   h ! nat m * x ! nat (int n - m)) [0..<N + M - 1]
          @ drop (N + M - 1) result)
   \<and> convolve_simd b simd [1, 2, 3] 3 [0, 1, 1 / 2] 3 [r0, r1, r2, r3, r4]
       = Inr [0, 1, 5 / 2, 4, 3 / 2]"
proof -
  assume a: "length x = N" "length h = M" "0 < N" "0 < M" "N + M - 1 \<le> length result"
    "int (N + M - 1) < 2 ^ 31"
  have g: "convolve_simd b simd x N h M result =
     Inr (map (spec_out x h) [0..<N + M - 1] @ drop (N + M - 1) result)"
    using a by (rule convolve_simd_eq)
  have "convolve_simd b simd [1, 2, 3] 3 [0, 1, 1 / 2] 3 [r0, r1, r2, r3, r4]
      = Inr (map (spec_out [1, 2, 3] [0, 1, 1 / 2]) [0..<3 + 3 - 1] @ drop (3 + 3 - 1) [r0, r1, r2, r3, r4])"
    by (rule convolve_simd_eq) simp_all
  then have e: "convolve_simd b simd [1, 2, 3] 3 [0, 1, 1 / 2] 3 [r0, r1, r2, r3, r4]
      = Inr [0, 1, 5 / 2, 4, 3 / 2]"
    using spec_out_example by simp
  show ?thesis
    using g e a(1,2) unfolding spec_out_def by simp
qed

theorem convolve_simd_contract_witness:
  "convolve_simd avx_build 1
     [1, 2, 3, 4, 5, 6, 7, 8, 9] 9 [1, 1, 1, 1, 1, 1, 1, 1, 1, 1] 10 (replicate 18 0)
   = Inr [1, 3, 6, 10, 15, 21, 28, 36, 45, 45, 44, 42, 39, 35, 30, 24, 17, 9]"
  using convolve_simd_contract [of "[1, 2, 3, 4, 5, 6, 7, 8, 9]" 9 "[1, 1, 1, 1, 1, 1, 1, 1, 1, 1]" 10 "replicate 18 0"
      avx_build 1]
  by (simp add: upt_rec sum_int_Icc_rec)

text \<open>
  Claim C8 fails for a signal of \<open>2 ^ 32 - 1\<close> samples and a kernel of three samples in the
  AVX build. The bound of the loop, \<^verbatim>\<open>(int)(xLength + hLength - 1)\<close>, is \<open>1\<close>, and
  \<^verbatim>\<open>(int)xLength\<close> is \<open>- 1\<close>: for \<open>n = 0\<close> the window is \<open>beg = 2\<close>, \<open>end = 1\<close>. With the flag clear
  the scalar loop over the empty window writes \<open>0\<close> to \<open>out[0]\<close>. With the flag set,
  \<open>simdEnd\<close> is \<open>2 + (- 1 & ~7) = - 6\<close> and the remainder loop runs from \<open>m = - 6\<close>: it reads
  \<open>h[- 6]\<close>, outside of the kernel.
\<close>

theorem convolve_simd_vectorized_eq_scalar_counterexample:
  "convolve_simd avx_build 1 (replicate (2 ^ 32 - 1) 1) (2 ^ 32 - 1) [1, 1, 1] 3
      (replicate (2 ^ 32 + 1) 0) = Inl OutOfBounds
   \<and> convolve_simd avx_build 0 (replicate (2 ^ 32 - 1) 1) (2 ^ 32 - 1) [1, 1, 1] 3
      (replicate (2 ^ 32 + 1) 0) = Inr ((replicate (2 ^ 32 + 1) 0)[0 := 0])"
proof -
  define N :: nat where "N = 2 ^ 32 - 1"
  define X :: "real list" where "X = replicate (2 ^ 32 - 1) 1"
  define R :: "real list" where "R = replicate (2 ^ 32 + 1) 0"
  define K :: "real list" where "K = [1, 1, 1]"
  have bound: "to_int (int (to_size_t (int N + int 3 - 1))) = 1"
    by (simp add: N_def to_int_def to_size_t_def)
  have cx: "to_int (int N) = - 1" by (simp add: N_def to_int_def)
  have ch: "to_int (int 3) = 3" by (simp add: to_int_def)
  have beg: "to_int (int (to_size_t (0 - int N + 1))) = 2"
    by (simp add: N_def to_int_def to_size_t_def)
  have se: "to_int (2 + (to_int (1 - 2) AND NOT 7)) = - 6"
    by (simp add: to_int_def and_not7)
  have vec: "inner_sum avx_build 1 X K 0 2 1 = Inl OutOfBounds"
    unfolding inner_sum_def Let_def se
    by (simp add: avx_build_def avx_loop.simps scalar_loop.simps load_def)
  have sca: "inner_sum avx_build 0 X K 0 2 1 = Inr 0"
    by (simp add: inner_sum_def avx_build_def scalar_loop.simps)
  have st: "store R 0 0 = Inr (R[0 := 0])" by (simp add: store_def R_def)
  have stop: "convolve_simd_loop avx_build 0 X N K 3 (0 + 1) (R[0 := 0]) = Inr (R[0 := 0])"
    by (rule convolve_simd_loop_stop) (simp only: bound)
  have w: "(if (0::int) < - 1 then 0 else 2) = (2::int)" "(if (0::int) + 1 > 3 then 3 else 0 + 1) = (1::int)"
    "((0::int) < 1) = True"
    by simp_all
  have 1: "convolve_simd_loop avx_build 1 X N K 3 0 R = Inl OutOfBounds"
    by (subst convolve_simd_loop.simps)
      (simp only: bound cx ch beg Let_def w if_True vec bindE_Inl)
  have 2: "convolve_simd_loop avx_build 0 X N K 3 0 R = Inr (R[0 := 0])"
    by (subst convolve_simd_loop.simps)
      (simp only: bound cx ch beg Let_def w if_True sca st bindE_Inr stop)
  have "convolve_simd avx_build 1 X N K 3 R = Inl OutOfBounds
      \<and> convolve_simd avx_build 0 X N K 3 R = Inr (R[0 := 0])"
    using 1 2 by (simp add: convolve_simd_def assertE_def N_def)
  then show ?thesis unfolding N_def X_def R_def K_def .
qed

text \<open>
  Claim C8, amended. For \<open>x\<close> and \<open>h\<close> of lengths \<open>N, M > 0\<close> with \<open>N + M - 1 < 2 ^ 31\<close> (the
  number of output samples fits an \<^verbatim>\<open>int\<close>), the call with the \<open>simd\<close> flag set
  (in the AVX build: chunks of 8 with \<open>x\<close> loaded backwards and reversed, a horizontal
  reduction, then the scalar remainder loop; in the NEON build the same with chunks of 4)
  returns normally, with the same output as the call with the flag clear, which runs the
  scalar loop over the whole window.
\<close>

theorem convolve_simd_vectorized_eq_scalar:
  "length x = N \<Longrightarrow> length h = M \<Longrightarrow> 0 < N \<Longrightarrow> 0 < M \<Longrightarrow> N + M - 1 \<le> length result \<Longrightarrow>
   int (N + M - 1) < 2 ^ 31 \<Longrightarrow> simd \<noteq> 0 \<Longrightarrow>
   convolve_simd b simd x N h M result = convolve_simd b 0 x N h M result
   \<and> (\<exists>out. convolve_simd b simd x N h M result = Inr out)"
proof -
  assume a: "length x = N" "length h = M" "0 < N" "0 < M" "N + M - 1 \<le> length result"
    "int (N + M - 1) < 2 ^ 31"
  have "convolve_simd b simd x N h M result =
     Inr (map (spec_out x h) [0..<N + M - 1] @ drop (N + M - 1) result)"
    using a by (rule convolve_simd_eq)
  moreover have "convolve_simd b 0 x N h M result =
     Inr (map (spec_out x h) [0..<N + M - 1] @ drop (N + M - 1) result)"
    using a by (rule convolve_simd_eq)
  ultimately show ?thesis by simp
qed

theorem convolve_simd_vectorized_eq_scalar_witness:
  "convolve_simd avx_build 1
     [1, 2, 3, 4, 5, 6, 7, 8, 9] 9 [1, 1, 1, 1, 1, 1, 1, 1, 1, 1] 10 (replicate 18 0)
   = convolve_simd avx_build 0
     [1, 2, 3, 4, 5, 6, 7, 8, 9] 9 [1, 1, 1, 1, 1, 1, 1, 1, 1, 1] 10 (replicate 18 0)
   \<and> convolve_simd neon_build 1
     [1, 2, 3, 4, 5, 6, 7, 8, 9] 9 [1, 1, 1, 1, 1, 1, 1, 1, 1, 1] 10 (replicate 18 0)
   = convolve_simd neon_build 0
     [1, 2, 3, 4, 5, 6, 7, 8, 9] 9 [1, 1, 1, 1, 1, 1, 1, 1, 1, 1] 10 (replicate 18 0)"
  using
    convolve_simd_vectorized_eq_scalar [of "[1, 2, 3, 4, 5, 6, 7, 8, 9]" 9
      "[1, 1, 1, 1, 1, 1, 1, 1, 1, 1]" 10 "replicate 18 0" 1
      avx_build]
    convolve_simd_vectorized_eq_scalar [of "[1, 2, 3, 4, 5, 6, 7, 8, 9]" 9
      "[1, 1, 1, 1, 1, 1, 1, 1, 1, 1]" 10 "replicate 18 0" 1
      neon_build]
  by simp


subsection \<open>Transform sizes\<close>


lemma pow2_and_nat:
  "0 < n \<Longrightarrow> (int n AND (int n - 1) = 0) = (\<exists>k. n = 2 ^ k)"
proof (induction n rule: less_induct)
  case (less n)
  show ?case
  proof (cases "n = 1")
    case True
    have "(1::nat) = 2 ^ 0" by simp
    then show ?thesis using True by (metis and_zero_eq diff_self of_nat_1)
  next
    case False
    then have n2: "2 \<le> n" using less.prems by simp
    show ?thesis
    proof (cases "even n")
      case True
      then obtain m where m: "n = 2 * m" by (elim evenE)
      then have m0: "0 < m" "m < n" using n2 by simp_all
      have d: "(int n - 1) div 2 = int m - 1" "int n div 2 = int m" "even (int n)"
        unfolding m by simp_all
      have "int n AND (int n - 1) = 2 * (int m AND (int m - 1))"
        by (subst and_rec) (simp add: d)
      then have "(int n AND (int n - 1) = 0) = (\<exists>k. m = 2 ^ k)"
        using less.IH [OF m0(2) m0(1)] by simp
      also have "\<dots> = (\<exists>k. n = 2 ^ k)"
      proof
        assume "\<exists>k. m = 2 ^ k"
        then obtain k where "m = 2 ^ k" ..
        then have "n = 2 ^ Suc k" using m by simp
        then show "\<exists>k. n = 2 ^ k" ..
      next
        assume "\<exists>k. n = 2 ^ k"
        then obtain k where k: "n = 2 ^ k" ..
        then have "k \<noteq> 0" using n2 by (cases k) simp_all
        then obtain k' where "k = Suc k'" by (cases k) simp_all
        then have "m = 2 ^ k'" using k m by simp
        then show "\<exists>k. m = 2 ^ k" ..
      qed
      finally show ?thesis .
    next
      case False
      then obtain m where m: "n = 2 * m + 1" by (elim oddE)
      then have m0: "0 < m" using n2 by simp
      have d: "(int n - 1) div 2 = int m" "int n div 2 = int m" "even (int n - 1)"
        unfolding m by simp_all
      have "int n AND (int n - 1) = 2 * (int m AND int m)"
        by (subst and_rec) (simp add: d)
      then have a: "int n AND (int n - 1) \<noteq> 0" using m0 by simp
      have "\<not> (\<exists>k. n = 2 ^ k)"
      proof
        assume "\<exists>k. n = 2 ^ k"
        then obtain k where k: "n = 2 ^ k" ..
        then have "k \<noteq> 0" using n2 by (cases k) simp_all
        then have "even n" using k by simp
        then show False using False by simp
      qed
      then show ?thesis using a by simp
    qed
  qed
qed

text \<open>From a positive \<open>L\<close> the shift loop ends after \<open>d\<close> turns, \<open>2 ^ d\<close> being the largest
  power of two that is at most \<open>L\<close>.\<close>

lemma shift_loop_pos:
  "0 < L \<Longrightarrow> \<exists>d. shift_loop L lg = Some (lg + int d) \<and> 2 ^ d \<le> L \<and> L < 2 ^ (d + 1)"
proof (induction "nat L" arbitrary: L lg rule: less_induct)
  case less
  show ?case
  proof (cases "L div 2 \<noteq> 0")
    case True
    then have p: "0 < L div 2" using less.prems by presburger
    have "L div 2 < L" using less.prems by presburger
    then have sm: "nat (L div 2) < nat L" using less.prems p by linarith
    obtain d where d: "shift_loop (L div 2) (lg + 1) = Some (lg + 1 + int d)" "2 ^ d \<le> L div 2"
        "L div 2 < 2 ^ (d + 1)"
      using less.hyps [OF sm p, of "lg + 1"] by blast
    have 1: "shift_loop L lg = Some (lg + int (d + 1))"
      using True d(1) by (subst shift_loop.simps) simp
    have lo: "2 * (L div 2) \<le> L" and hi: "L \<le> 2 * (L div 2) + 1" by presburger+
    have 2: "(2::int) ^ (d + 1) \<le> L" using d(2) lo by simp
    have 3: "L < 2 ^ (d + 1 + 1)" using d(3) hi by simp
    show ?thesis using 1 2 3 by blast
  next
    case False
    then have "L = 1" using less.prems by presburger
    moreover have "shift_loop L lg = Some (lg + int 0)"
      using False by (subst shift_loop.simps) simp
    ultimately show ?thesis by (intro exI [of _ 0]) simp
  qed
qed

text \<open>A run of the shift loop that ends started from a non-negative \<open>L\<close>; from a negative
  one the loop does not end.\<close>

lemma shift_loop_Some_nonneg:
  assumes "shift_loop L lg = Some y"
  shows "0 \<le> L"
proof (rule shift_loop.raw_induct [where P = "\<lambda>L lg y. 0 \<le> L", OF _ assms])
  fix f :: "int \<Rightarrow> int \<Rightarrow> int option" and L lg y :: int
  assume IH: "\<And>L lg y. f L lg = Some y \<Longrightarrow> 0 \<le> L"
    and e: "(if L div 2 \<noteq> 0 then f (L div 2) (lg + 1) else Some lg) = Some y"
  show "0 \<le> L"
  proof (cases "L div 2 \<noteq> 0")
    case True
    then have "f (L div 2) (lg + 1) = Some y" using e by simp
    then have "0 \<le> L div 2" by (rule IH)
    then show ?thesis by presburger
  next
    case False
    then show ?thesis by presburger
  qed
qed

lemma shift_loop_neg: "L < 0 \<Longrightarrow> shift_loop L lg = None"
  using shift_loop_Some_nonneg [of L lg] by (cases "shift_loop L lg") auto

lemma memsetf_mallocf:
  assumes "0 \<le> off" "off \<le> n"
  shows "memsetf (mallocf junk n) off v (n - off)
       = Inr (map junk [0..<nat off] @ replicate (nat (n - off)) v)"
proof -
  have "take (nat off) (map junk [0..<nat n]) = map junk [0..<nat off]"
    using assms by (simp add: take_map)
  then show ?thesis
    using assms by (simp add: memsetf_def mallocf_def write_range_def)
qed

text \<open>The transform size that \<^verbatim>\<open>convolve_fft_initialize\<close> computes from \<open>T\<close> output samples,
  lines 238 to 244, for \<open>T\<close> up to \<open>2 ^ 30\<close>.\<close>

lemma fft_size_cases:
  fixes T :: nat
  assumes "0 < T" "T \<le> 2 ^ 30"
  shows "\<exists>k. (if int T AND to_int (int T - 1) \<noteq> 0
              then (case shift_loop (int T) 1 of
                      None \<Rightarrow> Inl DoesNotReturn
                    | Some lg \<Rightarrow> Inr (to_int (2 ^ nat lg)))
              else Inr (int T)) = (Inr (2 ^ k) :: error + int)
          \<and> int T \<le> 2 ^ k \<and> (\<forall>j. int T \<le> 2 ^ j \<longrightarrow> (2::int) ^ k \<le> 2 ^ j)"
proof -
  have Ti: "int T \<le> 2 ^ 30" using assms(2) by (metis of_nat_le_iff of_nat_numeral of_nat_power)
  have t1: "to_int (int T - 1) = int T - 1" using Ti assms(1) by (intro to_int_id) simp_all
  show ?thesis
  proof (cases "int T AND (int T - 1) \<noteq> 0")
    case True
    then have np: "\<not> (\<exists>k. T = 2 ^ k)" using pow2_and_nat [OF assms(1)] by simp
    obtain d where d: "shift_loop (int T) 1 = Some (1 + int d)" "2 ^ d \<le> int T" "int T < 2 ^ (d + 1)"
      using shift_loop_pos [of "int T" 1] assms(1) by auto
    have dn: "2 ^ d \<le> T" "T < 2 ^ (d + 1)"
      using d(2,3) by (metis of_nat_le_iff of_nat_less_iff of_nat_numeral of_nat_power)+
    have lt: "2 ^ d < T" using dn(1) np by (metis le_neq_implies_less)
    then have "(2::nat) ^ d < 2 ^ 30" using assms(2) by linarith
    then have d30: "d < 30" by (intro power_less_imp_less_exp [of "2::nat" d 30]) simp_all
    have M: "to_int (2 ^ nat (1 + int d)) = 2 ^ (d + 1)"
    proof -
      have "nat (1 + int d) = d + 1" by simp
      moreover have "to_int (2 ^ (d + 1)) = 2 ^ (d + 1)" using d30 by (subst to_int_pow2) simp
      ultimately show ?thesis by (simp only:)
    qed
    have "(2::int) ^ (d + 1) \<le> 2 ^ j" if "int T \<le> 2 ^ j" for j
    proof -
      have "T \<le> 2 ^ j" using that by (metis of_nat_le_iff of_nat_numeral of_nat_power)
      then have "(2::nat) ^ d < 2 ^ j" using lt by (rule less_le_trans [rotated])
      then have "d < j" by simp
      then have "d + 1 \<le> j" by simp
      then show ?thesis by (intro power_increasing) simp_all
    qed
    moreover have "int T \<le> 2 ^ (d + 1)" using d(3) by simp
    ultimately show ?thesis
      using True d(1) M unfolding t1 by (intro exI [of _ "d + 1"]) simp
  next
    case False
    then obtain k where k: "T = 2 ^ k" using pow2_and_nat [OF assms(1)] by auto
    then have "int T = 2 ^ k" by simp
    then show ?thesis using False unfolding t1 by (intro exI [of _ k]) simp
  qed
qed

text \<open>
  Claim C10 fails for \<open>xLength = 2 ^ 30\<close> and \<open>hLength = 2\<close>: the smallest power of two that is
  at least \<open>outLen = 2 ^ 30 + 1\<close> is \<open>2 ^ 31\<close>, which the \<^verbatim>\<open>int\<close> that holds the transform
  size cannot hold. The shift loop ends with \<open>log = 31\<close>, \<^verbatim>\<open>1 << 31\<close> leaves \<open>- 2 ^ 31\<close> in \<open>M\<close>,
  no buffer of \<open>M + 2\<close> floats is allocated, and the write of the padding behind \<open>xLength\<close>
  is outside of any array.
\<close>

theorem convolve_fft_initialize_size_counterexample:
  "convolve_fft_initialize junk0 junk0 (2 ^ 30) 2 = Inl OutOfBounds"
proof -
  define N :: nat where "N = 2 ^ 30"
  have m0: "to_int (int (to_size_t (int N + int 2 - 1))) = 2 ^ 30 + 1"
    by (simp add: N_def to_int_def to_size_t_def)
  have nz: "((2::int) ^ 30 + 1) AND to_int (2 ^ 30 + 1 - 1) \<noteq> 0"
    by (simp add: to_int_def)
  obtain d where d: "shift_loop (2 ^ 30 + 1) 1 = Some (1 + int d)" "(2::int) ^ d \<le> 2 ^ 30 + 1"
      "(2::int) ^ 30 + 1 < 2 ^ (d + 1)"
    using shift_loop_pos [of "2 ^ 30 + 1" 1] by auto
  have "d = 30"
  proof -
    have "(2::int) ^ d < 2 ^ 31" using d(2) by simp
    then have "d < 31" by (intro power_less_imp_less_exp [of "2::int" d 31]) simp_all
    moreover have "(2::int) ^ 30 < 2 ^ (d + 1)" using d(3) by simp
    then have "30 < d + 1" by (intro power_less_imp_less_exp [of "2::int" 30 "d + 1"]) simp_all
    ultimately show ?thesis by simp
  qed
  then have sl: "shift_loop (2 ^ 30 + 1) 1 = Some 31" using d(1) by simp
  have M: "to_int (2 ^ nat 31) = - (2 ^ 31)" by (simp add: to_int_def)
  have "convolve_fft_initialize junk0 junk0 N 2 = Inl OutOfBounds"
    unfolding convolve_fft_initialize_def Let_def m0
    by (simp only: nz sl M if_True option.case bindE_Inr assertE_def)
       (simp add: N_def memsetf_def)
  then show ?thesis unfolding N_def .
qed

text \<open>
  Claim C10, amended. For \<open>xLength, hLength > 0\<close> with \<open>outLen = xLength + hLength - 1\<close> at
  most \<open>2 ^ 30\<close> (the power of two fits an \<^verbatim>\<open>int\<close>), \<^verbatim>\<open>convolve_fft_initialize\<close> returns a
  handle whose transform size is a power of two, is at least \<open>outLen\<close> and is at most every
  power of two that is at least \<open>outLen\<close> (so it is \<open>outLen\<close> itself when that is a power of
  two); the handle has its two buffers, each of the transform size plus 2 floats.
\<close>

theorem convolve_fft_initialize_size:
  "0 < xLength \<Longrightarrow> 0 < hLength \<Longrightarrow> xLength + hLength - 1 \<le> 2 ^ 30 \<Longrightarrow>
   \<exists>hdl k. convolve_fft_initialize junk1 junk2 xLength hLength = Inr hdl
     \<and> fft_M hdl = 2 ^ k
     \<and> int (xLength + hLength - 1) \<le> fft_M hdl
     \<and> (\<forall>j. int (xLength + hLength - 1) \<le> 2 ^ j \<longrightarrow> fft_M hdl \<le> 2 ^ j)
     \<and> int (length (fft_inputs0 hdl)) = fft_M hdl + 2
     \<and> int (length (fft_inputs1 hdl)) = fft_M hdl + 2
     \<and> fft_x_length hdl = xLength \<and> fft_h_length hdl = hLength"
proof -
  assume a: "0 < xLength" "0 < hLength" "xLength + hLength - 1 \<le> 2 ^ 30"
  define T where "T = xLength + hLength - 1"
  have T: "0 < T" "T \<le> 2 ^ 30" using a by (simp_all add: T_def)
  have Ti: "int T \<le> 2 ^ 30" using T(2) by (metis of_nat_le_iff of_nat_numeral of_nat_power)
  have e: "int xLength + int hLength - 1 = int T" using a by (simp add: T_def; linarith)
  have m0: "to_int (int (to_size_t (int xLength + int hLength - 1))) = int T"
    unfolding to_int_to_size_t e using Ti by (intro to_int_id) simp_all
  obtain k where k: "(if int T AND to_int (int T - 1) \<noteq> 0
              then (case shift_loop (int T) 1 of
                      None \<Rightarrow> Inl DoesNotReturn
                    | Some lg \<Rightarrow> Inr (to_int (2 ^ nat lg)))
              else Inr (int T)) = (Inr (2 ^ k) :: error + int)"
      "int T \<le> 2 ^ k" "\<forall>j. int T \<le> 2 ^ j \<longrightarrow> (2::int) ^ k \<le> 2 ^ j"
    using fft_size_cases [OF T] by blast
  let ?M = "(2::int) ^ k"
  have bx: "0 \<le> int xLength" "int xLength \<le> ?M + 2" using k(2) a by (simp_all add: T_def)
  have bh: "0 \<le> int hLength" "int hLength \<le> ?M + 2" using k(2) a by (simp_all add: T_def)
  let ?X = "map junk1 [0..<nat (int xLength)] @ replicate (nat (?M + 2 - int xLength)) 0"
  let ?H = "map junk2 [0..<nat (int hLength)] @ replicate (nat (?M + 2 - int hLength)) 0"
  let ?hdl = "\<lparr>fft_M = ?M, fft_x_length = xLength, fft_h_length = hLength, fft_reverse = 0,
             fft_inputs0 = ?X, fft_inputs1 = ?H\<rparr>"
  have "convolve_fft_initialize junk1 junk2 xLength hLength = Inr ?hdl"
    unfolding convolve_fft_initialize_def Let_def m0 k(1)
    using a memsetf_mallocf [OF bx, of junk1 0] memsetf_mallocf [OF bh, of junk2 0]
    by (simp add: assertE_def)
  moreover have "int (length ?X) = ?M + 2" "int (length ?H) = ?M + 2" using bx bh by simp_all
  ultimately show ?thesis
    using k(2,3) unfolding T_def by (intro exI [of _ ?hdl] exI [of _ k]) simp
qed

theorem convolve_fft_initialize_size_witness:
  "\<exists>hdl. convolve_fft_initialize junk0 junk0 3 3 = Inr hdl \<and> fft_M hdl = 8
     \<and> length (fft_inputs0 hdl) = 10 \<and> length (fft_inputs1 hdl) = 10"
proof -
  obtain hdl k where h: "convolve_fft_initialize junk0 junk0 3 3 = Inr hdl"
      "fft_M hdl = 2 ^ k" "int (3 + 3 - 1) \<le> fft_M hdl"
      "\<forall>j. int (3 + 3 - 1) \<le> 2 ^ j \<longrightarrow> fft_M hdl \<le> 2 ^ j"
      "int (length (fft_inputs0 hdl)) = fft_M hdl + 2"
      "int (length (fft_inputs1 hdl)) = fft_M hdl + 2"
    using convolve_fft_initialize_size [of 3 3 junk0 junk0] by auto
  have "fft_M hdl \<le> 2 ^ 3" using h(4) by (intro h(4) [rule_format]) simp
  moreover have "4 < fft_M hdl" using h(3) by simp
  moreover have "fft_M hdl \<noteq> 5 \<and> fft_M hdl \<noteq> 6 \<and> fft_M hdl \<noteq> 7"
  proof -
    have "k \<le> 2 \<or> 3 \<le> k" by linarith
    then show ?thesis
    proof
      assume "k \<le> 2"
      then have "(2::int) ^ k \<le> 2 ^ 2" by (intro power_increasing) simp_all
      then show ?thesis using h(2,3) by simp
    next
      assume "3 \<le> k"
      then have "(2::int) ^ 3 \<le> 2 ^ k" by (intro power_increasing) simp_all
      then show ?thesis using h(2) by simp
    qed
  qed
  ultimately have "fft_M hdl = 8" by simp
  then show ?thesis using h(1,5,6) by auto
qed



subsection \<open>Initialisation and the choice of the algorithm\<close>


lemma memsetf_mallocf_inner:
  assumes "0 \<le> off" "0 \<le> c" "off + c \<le> n"
  shows "\<exists>p. memsetf (mallocf junk n) off v c = Inr p \<and> length p = nat n"
  using assms by (simp add: memsetf_def mallocf_def write_range_def; linarith)

lemma memsetf_Inr:
  "memsetf p off v n = Inr q \<Longrightarrow> 0 \<le> off \<and> 0 \<le> n \<and> off + n \<le> int (length p) \<and> length q = length p"
  by (auto simp add: memsetf_def write_range_def split: if_splits)

lemma nat_pow_int_le: "((2::int) ^ d \<le> int n) = (2 ^ d \<le> n)"
  by (metis of_nat_le_iff of_nat_numeral of_nat_power)

lemma nat_pow_int_less: "(int n < (2::int) ^ d) = (n < 2 ^ d)"
  by (metis of_nat_less_iff of_nat_numeral of_nat_power)

text \<open>The overlap-save initialiser returns a handle exactly for a kernel that is shorter
  than half the signal and shorter than \<open>2 ^ 29\<close> samples, so that the transform size, up
  to four times the kernel length, fits an \<^verbatim>\<open>int\<close>.\<close>

lemma convolve_overlap_save_initialize_ok:
  assumes "0 < hLength" "hLength < xLength div 2" "hLength < 2 ^ 29"
  shows "\<exists>hdl. convolve_overlap_save_initialize junk1 junk2 xLength hLength = Inr hdl"
proof -
  have hi: "int hLength < 2 ^ 29" using assms(3) by (simp add: nat_pow_int_less)
  have c0: "to_int (int hLength) = int hLength" using hi by (intro to_int_id) simp_all
  obtain d where d: "shift_loop (int hLength) 2 = Some (2 + int d)" "2 ^ d \<le> int hLength"
      "int hLength < 2 ^ (d + 1)"
    using shift_loop_pos [of "int hLength" 2] assms(1) by auto
  have "(2::int) ^ d < 2 ^ 29" using d(2) hi by linarith
  then have d29: "d < 29" by (intro power_less_imp_less_exp [of "2::int" d 29]) simp_all
  let ?L = "(2::int) ^ (d + 2)"
  have n: "nat (2 + int d) = d + 2" by simp
  have "to_int (2 ^ (d + 2)) = ?L" using d29 by (subst to_int_pow2) simp
  then have L: "to_int (2 ^ nat (2 + int d)) = ?L" unfolding n .
  have lt: "int hLength < ?L"
  proof -
    have "(2::int) ^ (d + 1) \<le> 2 ^ (d + 2)" by (intro power_increasing) simp_all
    then show ?thesis using d(3) by linarith
  qed
  obtain p where p: "memsetf (mallocf junk1 (?L + 2)) (int hLength) 0 (?L - int hLength) = Inr p"
    using memsetf_mallocf_inner [of "int hLength" "?L - int hLength" "?L + 2" junk1 0] lt by auto
  have x: "0 < xLength" using assms by linarith
  have pos: "0 \<le> ?L + 2" by (rule order_trans [of _ 0]) simp_all
  show ?thesis
    unfolding convolve_overlap_save_initialize_def Let_def c0 d(1) option.case L
    using assms x p pos by (simp add: assertE_def)
qed

lemma convolve_overlap_save_initialize_Inr:
  assumes "convolve_overlap_save_initialize junk1 junk2 xLength hLength = Inr s"
  shows "hLength < xLength div 2" "0 < hLength" "hLength < 2 ^ 29" "os_handle_ok s"
    "os_x_length s = xLength" "os_h_length s = hLength" "os_reverse s = 0"
proof -
  have a: "hLength < xLength div 2" "0 < xLength" "0 < hLength"
    using assms by (auto simp add: convolve_overlap_save_initialize_def assertE_def split: if_splits)
  have r: "(case shift_loop (to_int (int hLength)) 2 of
          None \<Rightarrow> Inl DoesNotReturn
        | Some lg \<Rightarrow>
            bindE (assertE (0 \<le> to_int (2 ^ nat lg) + 2) ''handle.H'') (\<lambda>_.
            bindE (memsetf (mallocf junk1 (to_int (2 ^ nat lg) + 2)) (int hLength) 0
                     (to_int (2 ^ nat lg) - int hLength)) (\<lambda>H.
            bindE (assertE (0 \<le> to_int (2 ^ nat lg) + 2) ''handle.fft_boiler_plate'') (\<lambda>_.
            Inr \<lparr>os_x_length = xLength, os_h_length = hLength, os_reverse = 0,
                 os_L = to_int (2 ^ nat lg),
                 os_H = H, os_fft_boiler_plate = mallocf junk2 (to_int (2 ^ nat lg) + 2)\<rparr>)))) = Inr s"
    using assms a unfolding convolve_overlap_save_initialize_def Let_def
    by (simp add: assertE_def)
  then obtain lg where lg: "shift_loop (to_int (int hLength)) 2 = Some lg"
    by (cases "shift_loop (to_int (int hLength)) 2") simp_all
  define L where "L = to_int (2 ^ nat lg)"
  have r2: "bindE (assertE (0 \<le> L + 2) ''handle.H'') (\<lambda>_.
            bindE (memsetf (mallocf junk1 (L + 2)) (int hLength) 0 (L - int hLength)) (\<lambda>H.
            bindE (assertE (0 \<le> L + 2) ''handle.fft_boiler_plate'') (\<lambda>_.
            Inr \<lparr>os_x_length = xLength, os_h_length = hLength, os_reverse = 0, os_L = L,
                 os_H = H, os_fft_boiler_plate = mallocf junk2 (L + 2)\<rparr>))) = Inr s"
    using r unfolding lg option.case L_def .
  have pos: "0 \<le> L + 2" using r2 by (auto simp add: assertE_def split: if_splits)
  obtain H where H: "memsetf (mallocf junk1 (L + 2)) (int hLength) 0 (L - int hLength) = Inr H"
    using r2 pos
    by (cases "memsetf (mallocf junk1 (L + 2)) (int hLength) 0 (L - int hLength)")
       (simp_all add: assertE_def)
  have s: "s = \<lparr>os_x_length = xLength, os_h_length = hLength, os_reverse = 0, os_L = L,
                 os_H = H, os_fft_boiler_plate = mallocf junk2 (L + 2)\<rparr>"
    using r2 pos H by (simp add: assertE_def)
  have Hf: "int hLength \<le> L" "length H = nat (L + 2)"
    using memsetf_Inr [OF H] by (simp_all add: mallocf_def)
  have "L < 2 ^ 31" unfolding L_def by (rule to_int_range)
  then have c0: "to_int (int hLength) = int hLength" using Hf(1) by (intro to_int_id) simp_all
  obtain d where d: "shift_loop (int hLength) 2 = Some (2 + int d)" "2 ^ d \<le> int hLength"
      "int hLength < 2 ^ (d + 1)"
    using shift_loop_pos [of "int hLength" 2] a(3) by auto
  have "lg = 2 + int d" using lg d(1) c0 by simp
  then have "nat lg = d + 2" by simp
  then have L2: "L = to_int (2 ^ (d + 2))" by (simp only: L_def)
  have d31: "d + 2 < 31"
  proof (rule ccontr)
    assume "\<not> d + 2 < 31"
    then have "to_int (2 ^ (d + 2)) \<le> 0" by (subst to_int_pow2) simp
    then show False using L2 Hf(1) a(3) by simp
  qed
  then have L3: "L = 2 ^ (d + 2)" unfolding L2 by (subst to_int_pow2) simp
  have "(2::int) ^ (d + 1) \<le> 2 ^ 29" using d31 by (intro power_increasing) simp_all
  then have "int hLength < 2 ^ 29" using d(3) by linarith
  then show "hLength < 2 ^ 29" by (simp add: nat_pow_int_less)
  show "hLength < xLength div 2" "0 < hLength" using a by simp_all
  show "os_x_length s = xLength" "os_h_length s = hLength" "os_reverse s = 0"
    by (simp_all add: s)
  have "2 ^ d \<le> hLength" "hLength < 2 ^ (d + 1)"
    using d(2,3) by (simp_all only: nat_pow_int_le nat_pow_int_less)
  then have "\<exists>d. L = 2 ^ (d + 2) \<and> 2 ^ d \<le> hLength \<and> hLength < 2 ^ (d + 1)"
    using L3 by blast
  then show "os_handle_ok s"
    using a(3) Hf(2) pos by (simp add: os_handle_ok_def s mallocf_def)
qed

lemma convolve_overlap_save_initialize_fail:
  assumes "\<not> hLength < xLength div 2"
  shows "convolve_overlap_save_initialize junk1 junk2 xLength hLength
       = Inl (AssertionFailed ''hLength < xLength / 2'')"
  using assms by (simp add: convolve_overlap_save_initialize_def assertE_def)

lemma convolve_overlap_save_initialize_passes:
  assumes "hLength < xLength div 2"
  shows "convolve_overlap_save_initialize junk1 junk2 xLength hLength
       \<noteq> Inl (AssertionFailed ''hLength < xLength / 2'')"
  using assms
  by (auto simp add: convolve_overlap_save_initialize_def assertE_def Let_def bindE_def
      memsetf_def write_range_def split: option.splits sum.splits if_splits)

lemma convolve_fft_initialize_ok:
  assumes "0 < xLength" "0 < hLength" "xLength + hLength - 1 \<le> 2 ^ 30"
  shows "\<exists>hdl. convolve_fft_initialize junk1 junk2 xLength hLength = Inr hdl"
proof -
  define T where "T = xLength + hLength - 1"
  have T: "0 < T" "T \<le> 2 ^ 30" using assms by (simp_all add: T_def)
  have Ti: "int T \<le> 2 ^ 30" using T(2) by (metis of_nat_le_iff of_nat_numeral of_nat_power)
  have e: "int xLength + int hLength - 1 = int T" using assms by (simp add: T_def; linarith)
  have m0: "to_int (int (to_size_t (int xLength + int hLength - 1))) = int T"
    unfolding to_int_to_size_t e using Ti by (intro to_int_id) simp_all
  obtain k where k: "(if int T AND to_int (int T - 1) \<noteq> 0
              then (case shift_loop (int T) 1 of
                      None \<Rightarrow> Inl DoesNotReturn
                    | Some lg \<Rightarrow> Inr (to_int (2 ^ nat lg)))
              else Inr (int T)) = (Inr (2 ^ k) :: error + int)"
      "int T \<le> 2 ^ k"
    using fft_size_cases [OF T] by blast
  let ?M = "(2::int) ^ k"
  have bx: "0 \<le> int xLength" "int xLength \<le> ?M + 2" using k(2) assms by (simp_all add: T_def)
  have bh: "0 \<le> int hLength" "int hLength \<le> ?M + 2" using k(2) assms by (simp_all add: T_def)
  show ?thesis
    unfolding convolve_fft_initialize_def Let_def m0 k(1)
    using assms memsetf_mallocf [OF bx, of junk1 0] memsetf_mallocf [OF bh, of junk2 0]
    by (simp add: assertE_def)
qed

text \<open>The initialiser of the single-shot transform convolver returns a handle only for
  lengths with at most \<open>2 ^ 30\<close> output samples.\<close>

lemma convolve_fft_initialize_Inr:
  assumes "convolve_fft_initialize junk1 junk2 xLength hLength = Inr f"
  shows "0 < xLength" "0 < hLength" "xLength + hLength - 1 \<le> 2 ^ 30"
proof -
  show a: "0 < xLength" "0 < hLength"
    using assms by (auto simp add: convolve_fft_initialize_def assertE_def split: if_splits)
  define T where "T = xLength + hLength - 1"
  define M0 where "M0 = to_int (int (to_size_t (int xLength + int hLength - 1)))"
  have T: "0 < T" "int xLength + int hLength - 1 = int T" using a unfolding T_def by linarith+
  have r: "bindE (if M0 AND to_int (M0 - 1) \<noteq> 0
               then (case shift_loop M0 1 of
                       None \<Rightarrow> Inl DoesNotReturn
                     | Some lg \<Rightarrow> Inr (to_int (2 ^ nat lg)))
               else Inr M0) (\<lambda>M.
        bindE (memsetf (mallocf junk1 (M + 2)) (int xLength) 0 (M + 2 - int xLength)) (\<lambda>X.
        bindE (memsetf (mallocf junk2 (M + 2)) (int hLength) 0 (M + 2 - int hLength)) (\<lambda>H.
        Inr \<lparr>fft_M = M, fft_x_length = xLength, fft_h_length = hLength, fft_reverse = 0,
             fft_inputs0 = X, fft_inputs1 = H\<rparr>))) = Inr f"
    using assms a unfolding convolve_fft_initialize_def Let_def M0_def by (simp add: assertE_def)
  let ?sz = "if M0 AND to_int (M0 - 1) \<noteq> 0
               then (case shift_loop M0 1 of
                       None \<Rightarrow> Inl DoesNotReturn
                     | Some lg \<Rightarrow> Inr (to_int (2 ^ nat lg)))
               else Inr M0"
  obtain M where M: "?sz = Inr M" using r by (cases ?sz) simp_all
  have r2: "bindE (memsetf (mallocf junk1 (M + 2)) (int xLength) 0 (M + 2 - int xLength)) (\<lambda>X.
        bindE (memsetf (mallocf junk2 (M + 2)) (int hLength) 0 (M + 2 - int hLength)) (\<lambda>H.
        Inr \<lparr>fft_M = M, fft_x_length = xLength, fft_h_length = hLength, fft_reverse = 0,
             fft_inputs0 = X, fft_inputs1 = H\<rparr>)) = Inr f"
    using r unfolding M by simp
  obtain X where X: "memsetf (mallocf junk1 (M + 2)) (int xLength) 0 (M + 2 - int xLength) = Inr X"
    using r2 by (cases "memsetf (mallocf junk1 (M + 2)) (int xLength) 0 (M + 2 - int xLength)") simp_all
  obtain H where H: "memsetf (mallocf junk2 (M + 2)) (int hLength) 0 (M + 2 - int hLength) = Inr H"
    using r2 unfolding X
    by (cases "memsetf (mallocf junk2 (M + 2)) (int hLength) 0 (M + 2 - int hLength)") simp_all
  have bx: "int xLength \<le> M + 2" using memsetf_Inr [OF X] by simp
  have bh: "int hLength \<le> M + 2" using memsetf_Inr [OF H] by simp
  have p2: "to_int (2 ^ k) \<le> 2 ^ 30" for k
  proof -
    have "(2::int) ^ k \<le> 2 ^ 30" if "k < 31" using that by (intro power_increasing) simp_all
    then show ?thesis by (subst to_int_pow2) auto
  qed
  have M0r: "M0 < 2 ^ 31" unfolding M0_def by (rule to_int_range)
  have M0n: "0 \<le> M0 \<and> M \<le> 2 ^ 30"
  proof (cases "M0 AND to_int (M0 - 1) \<noteq> 0")
    case True
    then obtain lg where lg: "shift_loop M0 1 = Some lg" "M = to_int (2 ^ nat lg)"
      using M by (cases "shift_loop M0 1") simp_all
    show ?thesis using shift_loop_Some_nonneg [OF lg(1)] p2 [of "nat lg"] lg(2) by simp
  next
    case False
    then have MM: "M = M0" and z: "M0 AND to_int (M0 - 1) = 0" using M by simp_all
    have "- 1 \<le> M0" using bx a MM by linarith
    moreover have "M0 \<noteq> - 1"
    proof
      assume "M0 = - 1"
      then show False using z by (simp add: to_int_def)
    qed
    ultimately have n: "0 \<le> M0" by linarith
    then have t: "to_int (M0 - 1) = M0 - 1" using M0r by (intro to_int_id) simp_all
    have "M0 \<le> 2 ^ 30"
    proof (cases "M0 = 0")
      case True
      then show ?thesis by simp
    next
      case False
      then have "0 < nat M0" using n by simp
      moreover have "int (nat M0) AND (int (nat M0) - 1) = 0" using z n t by simp
      ultimately obtain k where k: "nat M0 = 2 ^ k" using pow2_and_nat [of "nat M0"] by auto
      then have Mk: "M0 = 2 ^ k" using n by (metis int_nat_eq of_nat_numeral of_nat_power)
      then have "k < 31" using M0r by (intro power_less_imp_less_exp [of "2::int" k 31]) simp_all
      then have "(2::int) ^ k \<le> 2 ^ 30" by (intro power_increasing) simp_all
      then show ?thesis using Mk by simp
    qed
    then show ?thesis using n MM by simp
  qed
  have M30: "M \<le> 1073741824" using M0n by simp
  have Tb: "int T \<le> 2147483651" using bx bh M30 T(2) by linarith
  have small: "int T < 2 ^ 64" using Tb by simp
  have ts: "int (to_size_t (int T)) = int T" using small by (simp add: to_size_t_id)
  have M0T: "M0 = to_int (int T)" unfolding M0_def T(2) ts ..
  have Tlt: "int T < 2 ^ 31"
  proof (rule ccontr)
    assume c: "\<not> int T < 2 ^ 31"
    have "int T < 2 ^ 32" using Tb by simp
    then have "(int T + 2 ^ 31 - 2 ^ 32) mod 2 ^ 32 = int T + 2 ^ 31 - 2 ^ 32"
      using c by (intro mod_pos_pos_trivial) simp_all
    moreover have "(int T + 2 ^ 31 - 2 ^ 32) mod 2 ^ 32 = (int T + 2 ^ 31) mod (2 ^ 32 :: int)"
      by (rule minus_mod_self2)
    ultimately have "to_int (int T) = int T - 2 ^ 32" by (simp add: to_int_def)
    then have "to_int (int T) < 0" using \<open>int T < 2 ^ 32\<close> by simp
    then show False using M0n M0T by simp
  qed
  have M0e: "M0 = int T" unfolding M0T using Tlt by (intro to_int_id) simp_all
  have "int T \<le> 2 ^ 30"
  proof (cases "M0 AND to_int (M0 - 1) \<noteq> 0")
    case True
    then obtain lg where lg: "shift_loop M0 1 = Some lg" "M = to_int (2 ^ nat lg)"
      using M by (cases "shift_loop M0 1") simp_all
    obtain d where d: "shift_loop (int T) 1 = Some (1 + int d)" "2 ^ d \<le> int T"
        "int T < 2 ^ (d + 1)"
      using shift_loop_pos [of "int T" 1] T(1) by auto
    have "lg = 1 + int d" using lg(1) d(1) M0e by simp
    then have "nat lg = d + 1" by simp
    then have Md: "M = to_int (2 ^ (d + 1))" using lg(2) by (simp only:)
    have "d + 1 < 31"
    proof (rule ccontr)
      assume "\<not> d + 1 < 31"
      then have "to_int (2 ^ (d + 1)) \<le> 0" by (subst to_int_pow2) simp
      then have "M \<le> 0" using Md by simp
      then have "int T \<le> 3" using bx bh T(2) by linarith
      then have "(2::int) ^ d \<le> 3" using d(2) by linarith
      then have "(2::int) ^ d < 2 ^ 2" by simp
      then have "d < 2" by (intro power_less_imp_less_exp [of "2::int" d 2]) simp_all
      then show False using \<open>\<not> d + 1 < 31\<close> by simp
    qed
    then have "(2::int) ^ (d + 1) \<le> 2 ^ 30" by (intro power_increasing) simp_all
    then show ?thesis using d(3) by linarith
  next
    case False
    then have "M = M0" using M by simp
    then show ?thesis using M0n M0e by simp
  qed
  then show "xLength + hLength - 1 \<le> 2 ^ 30"
    unfolding T_def [symmetric] by (metis of_nat_le_iff of_nat_numeral of_nat_power)
qed

text \<open>The test \<^verbatim>\<open>xLength > hLength * 2\<close>, with the product reduced to \<^verbatim>\<open>size_t\<close>.\<close>

lemma select_test: "hLength * 2 < xLength \<Longrightarrow> to_size_t (int hLength * 2) < xLength"
  using to_size_t_le [of "int hLength * 2"] by linarith

lemma select_test_exact: "hLength < 2 ^ 63 \<Longrightarrow> to_size_t (int hLength * 2) = hLength * 2"
proof -
  assume "hLength < 2 ^ 63"
  then have "int hLength < 2 ^ 63" by (simp add: nat_pow_int_less)
  then have "to_size_t (int hLength * 2) = nat (int hLength * 2)"
    by (intro to_size_t_id) simp_all
  then show ?thesis by (simp add: nat_mult_distrib)
qed

text \<open>The selection and the outcome of convolve_initialize, by cases.\<close>

lemma convolve_initialize_os:
  "to_size_t (int hLength * 2) < xLength \<Longrightarrow> 200 < xLength \<Longrightarrow>
   convolve_initialize b junk1 junk2 xLength hLength
     = bindE (convolve_overlap_save_initialize junk1 junk2 xLength hLength) (\<lambda>s.
         Inr \<lparr>algorithm = kConvolutionAlgorithmOverlapSave, x_length = xLength,
              h_length = hLength, handle = os s\<rparr>)"
  by (simp add: convolve_initialize_def Let_def)

lemma convolve_initialize_fft:
  "\<not> to_size_t (int hLength * 2) < xLength \<Longrightarrow> (if ARM_NEON b then 50 else 350) < xLength \<Longrightarrow>
   convolve_initialize b junk1 junk2 xLength hLength
     = bindE (convolve_fft_initialize junk1 junk2 xLength hLength) (\<lambda>f.
         Inr \<lparr>algorithm = kConvolutionAlgorithmFFT, x_length = xLength,
              h_length = hLength, handle = fft f\<rparr>)"
  by (auto simp add: convolve_initialize_def Let_def split: if_splits)

lemma convolve_initialize_direct:
  "(to_size_t (int hLength * 2) < xLength \<and> \<not> 200 < xLength)
     \<or> (\<not> to_size_t (int hLength * 2) < xLength \<and> \<not> (if ARM_NEON b then 50 else 350) < xLength) \<Longrightarrow>
   convolve_initialize b junk1 junk2 xLength hLength
     = Inr \<lparr>algorithm = kConvolutionAlgorithmBruteForce, x_length = xLength,
            h_length = hLength, handle = unset\<rparr>"
  by (auto simp add: convolve_initialize_def Let_def split: if_splits)

lemma convolve_initialize_cases:
  fixes b junk1 junk2 xLength hLength
  defines "r \<equiv> convolve_initialize b junk1 junk2 xLength hLength"
  defines "medium \<equiv> (if ARM_NEON b then 50 else 350 :: nat)"
  shows "hLength * 2 < xLength \<Longrightarrow> 200 < xLength \<Longrightarrow> 0 < hLength \<Longrightarrow> hLength < xLength div 2 \<Longrightarrow>
          hLength < 2 ^ 29 \<Longrightarrow>
          \<exists>hdl s. r = Inr hdl \<and> algorithm hdl = kConvolutionAlgorithmOverlapSave \<and> handle hdl = os s"
    and "hLength * 2 < xLength \<Longrightarrow> 200 < xLength \<Longrightarrow> \<not> hLength < xLength div 2 \<Longrightarrow>
          r = Inl (AssertionFailed ''hLength < xLength / 2'')"
    and "hLength * 2 < xLength \<Longrightarrow> 200 < xLength \<Longrightarrow> hLength = 0 \<Longrightarrow>
          r = Inl (AssertionFailed ''hLength > 0'')"
    and "hLength * 2 < xLength \<Longrightarrow> \<not> 200 < xLength \<Longrightarrow>
          r = Inr \<lparr>algorithm = kConvolutionAlgorithmBruteForce, x_length = xLength,
                   h_length = hLength, handle = unset\<rparr>"
    and "\<not> hLength * 2 < xLength \<Longrightarrow> hLength < 2 ^ 63 \<Longrightarrow> medium < xLength \<Longrightarrow>
          xLength + hLength - 1 \<le> 2 ^ 30 \<Longrightarrow>
          \<exists>hdl f. r = Inr hdl \<and> algorithm hdl = kConvolutionAlgorithmFFT \<and> handle hdl = fft f"
    and "\<not> hLength * 2 < xLength \<Longrightarrow> hLength < 2 ^ 63 \<Longrightarrow> \<not> medium < xLength \<Longrightarrow>
          r = Inr \<lparr>algorithm = kConvolutionAlgorithmBruteForce, x_length = xLength,
                   h_length = hLength, handle = unset\<rparr>"
proof -
  show "\<exists>hdl s. r = Inr hdl \<and> algorithm hdl = kConvolutionAlgorithmOverlapSave \<and> handle hdl = os s"
    if h: "hLength * 2 < xLength" "200 < xLength" "0 < hLength" "hLength < xLength div 2"
      "hLength < 2 ^ 29"
  proof -
    have "\<exists>s. convolve_overlap_save_initialize junk1 junk2 xLength hLength = Inr s"
      using convolve_overlap_save_initialize_ok [OF h(3,4,5)] by blast
    then obtain s where "convolve_overlap_save_initialize junk1 junk2 xLength hLength = Inr s" ..
    then show ?thesis
      unfolding r_def convolve_initialize_os [OF select_test [OF h(1)] h(2)] by simp
  qed
  show "r = Inl (AssertionFailed ''hLength < xLength / 2'')"
    if "hLength * 2 < xLength" "200 < xLength" "\<not> hLength < xLength div 2"
    unfolding r_def convolve_initialize_os [OF select_test [OF that(1)] that(2)]
      convolve_overlap_save_initialize_fail [OF that(3)] by simp
  show "r = Inl (AssertionFailed ''hLength > 0'')"
    if "hLength * 2 < xLength" "200 < xLength" "hLength = 0"
    unfolding r_def convolve_initialize_os [OF select_test [OF that(1)] that(2)]
    using that by (simp add: convolve_overlap_save_initialize_def assertE_def)
  show "r = Inr \<lparr>algorithm = kConvolutionAlgorithmBruteForce, x_length = xLength,
                   h_length = hLength, handle = unset\<rparr>"
    if "hLength * 2 < xLength" "\<not> 200 < xLength"
    unfolding r_def using select_test [OF that(1)] that(2)
    by (intro convolve_initialize_direct) simp
  show "\<exists>hdl f. r = Inr hdl \<and> algorithm hdl = kConvolutionAlgorithmFFT \<and> handle hdl = fft f"
    if h: "\<not> hLength * 2 < xLength" "hLength < 2 ^ 63" "medium < xLength"
      "xLength + hLength - 1 \<le> 2 ^ 30"
  proof -
    have "0 < xLength" "0 < hLength" using h by (auto simp: medium_def split: if_splits)
    then have "\<exists>f. convolve_fft_initialize junk1 junk2 xLength hLength = Inr f"
      using convolve_fft_initialize_ok h(4) by blast
    then obtain f where "convolve_fft_initialize junk1 junk2 xLength hLength = Inr f" ..
    moreover have "\<not> to_size_t (int hLength * 2) < xLength"
      using h(1) by (simp add: select_test_exact [OF h(2)])
    moreover have "(if ARM_NEON b then 50 else 350) < xLength" using h(3) by (simp add: medium_def)
    ultimately show ?thesis
      unfolding r_def by (simp add: convolve_initialize_fft)
  qed
  show "r = Inr \<lparr>algorithm = kConvolutionAlgorithmBruteForce, x_length = xLength,
                   h_length = hLength, handle = unset\<rparr>"
    if "\<not> hLength * 2 < xLength" "hLength < 2 ^ 63" "\<not> medium < xLength"
  proof -
    have "\<not> to_size_t (int hLength * 2) < xLength"
      using that(1) by (simp add: select_test_exact [OF that(2)])
    moreover have "\<not> (if ARM_NEON b then 50 else 350) < xLength" using that(3) by (simp add: medium_def)
    ultimately show ?thesis unfolding r_def by (intro convolve_initialize_direct) simp
  qed
qed

text \<open>
  Claim C5 fails for \<open>xLength = 300\<close> and \<open>hLength = 2 ^ 63\<close>: \<open>xLength \<le> 2 * hLength\<close> and
  \<open>xLength \<le> 350\<close>, for which the claim has the direct convolver selected. The product
  \<^verbatim>\<open>hLength * 2\<close> is \<open>0\<close> in \<^verbatim>\<open>size_t\<close>, the test \<^verbatim>\<open>xLength > hLength * 2\<close> holds and OverlapSave
  is selected, whose initialiser fails its first assertion.
\<close>

theorem convolve_initialize_selection_counterexample:
  "convolve_initialize avx_build junk0 junk0 300 (2 ^ 63)
     = Inl (AssertionFailed ''hLength < xLength / 2'')"
proof -
  define K :: nat where "K = 2 ^ 63"
  have t: "to_size_t (int K * 2) < 300" by (simp add: K_def to_size_t_def)
  have f: "\<not> K < 300 div 2" by (simp add: K_def)
  have g: "(200::nat) < 300" by simp
  have "convolve_initialize avx_build junk0 junk0 300 K
     = Inl (AssertionFailed ''hLength < xLength / 2'')"
    unfolding convolve_initialize_os [OF t g] convolve_overlap_save_initialize_fail [OF f]
    by simp
  then show ?thesis unfolding K_def .
qed

text \<open>
  Claim C5, amended. For \<open>xLength, hLength > 0\<close> with \<open>hLength < 2 ^ 63\<close> (twice the kernel
  length fits a \<^verbatim>\<open>size_t\<close>), \<^verbatim>\<open>convolve_initialize\<close> selects OverlapSave if and only if
  \<open>xLength > 2 * hLength\<close> and \<open>xLength > 200\<close>; the single-shot transform if and only if
  \<open>xLength \<le> 2 * hLength\<close> and \<open>xLength\<close> exceeds the medium threshold, \<open>350\<close>, or \<open>50\<close> in the
  NEON build; and the direct convolver in every other case. The handle it returns has
  that algorithm. It returns none only where a transform-based algorithm was selected and
  the initialiser of that algorithm failed; for \<open>xLength + hLength \<le> 2 ^ 30\<close> that is the
  initialiser of OverlapSave, failing the assertion \<open>hLength < xLength / 2\<close>.
\<close>

theorem convolve_initialize_selection:
  "0 < xLength \<Longrightarrow> 0 < hLength \<Longrightarrow> hLength < 2 ^ 63 \<Longrightarrow>
   (case convolve_initialize b junk1 junk2 xLength hLength of
      Inr hdl \<Rightarrow>
        (algorithm hdl = kConvolutionAlgorithmOverlapSave)
          = (2 * hLength < xLength \<and> 200 < xLength)
      \<and> (algorithm hdl = kConvolutionAlgorithmFFT)
          = (xLength \<le> 2 * hLength \<and> (if ARM_NEON b then 50 else 350) < xLength)
      \<and> (algorithm hdl = kConvolutionAlgorithmBruteForce)
          = (\<not> (2 * hLength < xLength \<and> 200 < xLength)
             \<and> \<not> (xLength \<le> 2 * hLength \<and> (if ARM_NEON b then 50 else 350) < xLength))
    | Inl e \<Rightarrow>
        ((2 * hLength < xLength \<and> 200 < xLength)
           \<or> (xLength \<le> 2 * hLength \<and> (if ARM_NEON b then 50 else 350) < xLength))
      \<and> (xLength + hLength \<le> 2 ^ 30 \<longrightarrow>
           2 * hLength < xLength \<and> 200 < xLength
           \<and> e = AssertionFailed ''hLength < xLength / 2''))"
proof -
  assume a: "0 < xLength" "0 < hLength" "hLength < 2 ^ 63"
  let ?r = "convolve_initialize b junk1 junk2 xLength hLength"
  let ?medium = "(if ARM_NEON b then 50 else 350 :: nat)"
  have t: "to_size_t (int hLength * 2) = hLength * 2" using a(3) by (rule select_test_exact)
  consider
      (os) "hLength * 2 < xLength" "200 < xLength"
    | (small) "hLength * 2 < xLength" "\<not> 200 < xLength"
    | (fft) "\<not> hLength * 2 < xLength" "?medium < xLength"
    | (direct) "\<not> hLength * 2 < xLength" "\<not> ?medium < xLength"
    by linarith
  then show ?thesis
  proof cases
    case os
    have r: "?r = bindE (convolve_overlap_save_initialize junk1 junk2 xLength hLength) (\<lambda>s.
         Inr \<lparr>algorithm = kConvolutionAlgorithmOverlapSave, x_length = xLength,
              h_length = hLength, handle = os s\<rparr>)"
      using os by (intro convolve_initialize_os) (simp_all add: t)
    show ?thesis
    proof (cases "convolve_overlap_save_initialize junk1 junk2 xLength hLength")
      case (Inr s)
      then show ?thesis using os unfolding r by simp
    next
      case (Inl e)
      have "e = AssertionFailed ''hLength < xLength / 2''" if s: "xLength + hLength \<le> 2 ^ 30"
      proof (cases "hLength < xLength div 2")
        case True
        have "3 * hLength < 2 ^ 30" using os(1) s by linarith
        then have "hLength < 2 ^ 29" by simp
        then obtain hdl where "convolve_overlap_save_initialize junk1 junk2 xLength hLength = Inr hdl"
          using convolve_overlap_save_initialize_ok [OF a(2) True] by blast
        then show ?thesis using Inl by simp
      next
        case False
        then show ?thesis
          using convolve_overlap_save_initialize_fail [OF False, of junk1 junk2] Inl by simp
      qed
      then show ?thesis using os Inl unfolding r by simp
    qed
  next
    case small
    then have "?r = Inr \<lparr>algorithm = kConvolutionAlgorithmBruteForce, x_length = xLength,
                   h_length = hLength, handle = unset\<rparr>"
      by (rule convolve_initialize_cases(4))
    then show ?thesis using small by simp
  next
    case fft
    have r: "?r = bindE (convolve_fft_initialize junk1 junk2 xLength hLength) (\<lambda>f.
         Inr \<lparr>algorithm = kConvolutionAlgorithmFFT, x_length = xLength,
              h_length = hLength, handle = fft f\<rparr>)"
      using fft by (intro convolve_initialize_fft) (simp_all add: t)
    show ?thesis
    proof (cases "convolve_fft_initialize junk1 junk2 xLength hLength")
      case (Inr f)
      then show ?thesis using fft unfolding r by simp
    next
      case (Inl e)
      have "\<not> xLength + hLength \<le> 2 ^ 30"
      proof
        assume "xLength + hLength \<le> 2 ^ 30"
        then have "xLength + hLength - 1 \<le> 2 ^ 30" by simp
        then obtain f where "convolve_fft_initialize junk1 junk2 xLength hLength = Inr f"
          using convolve_fft_initialize_ok [OF a(1,2)] by blast
        then show False using Inl by simp
      qed
      then show ?thesis using fft Inl unfolding r by simp
    qed
  next
    case direct
    then have "?r = Inr \<lparr>algorithm = kConvolutionAlgorithmBruteForce, x_length = xLength,
                   h_length = hLength, handle = unset\<rparr>"
      using a(3) by (intro convolve_initialize_cases(6)) simp_all
    then show ?thesis using direct by simp
  qed
qed

theorem convolve_initialize_selection_witness:
  "(\<exists>hdl. convolve_initialize avx_build junk0 junk0 300 10 = Inr hdl
       \<and> algorithm hdl = kConvolutionAlgorithmOverlapSave)
   \<and> (\<exists>hdl. convolve_initialize avx_build junk0 junk0 400 300 = Inr hdl
       \<and> algorithm hdl = kConvolutionAlgorithmFFT)
   \<and> (\<exists>hdl. convolve_initialize neon_build junk0 junk0 60 40 = Inr hdl
       \<and> algorithm hdl = kConvolutionAlgorithmFFT)
   \<and> (\<exists>hdl. convolve_initialize avx_build junk0 junk0 60 40 = Inr hdl
       \<and> algorithm hdl = kConvolutionAlgorithmBruteForce)"
proof -
  have 1: "\<exists>hdl. convolve_initialize avx_build junk0 junk0 300 10 = Inr hdl"
    using convolve_initialize_cases(1) [of 10 300 avx_build junk0 junk0] by auto
  have 2: "\<exists>hdl. convolve_initialize avx_build junk0 junk0 400 300 = Inr hdl"
    using convolve_initialize_cases(5) [of 300 400 avx_build junk0 junk0] by (auto simp: avx_build_def)
  have 3: "\<exists>hdl. convolve_initialize neon_build junk0 junk0 60 40 = Inr hdl"
    using convolve_initialize_cases(5) [of 40 60 neon_build junk0 junk0] by (auto simp: neon_build_def)
  have 4: "\<exists>hdl. convolve_initialize avx_build junk0 junk0 60 40 = Inr hdl"
    using convolve_initialize_cases(6) [of 40 60 avx_build junk0 junk0] by (auto simp: avx_build_def)
  show ?thesis
    using 1 2 3 4
      convolve_initialize_selection [of 300 10 avx_build junk0 junk0]
      convolve_initialize_selection [of 400 300 avx_build junk0 junk0]
      convolve_initialize_selection [of 60 40 neon_build junk0 junk0]
      convolve_initialize_selection [of 60 40 avx_build junk0 junk0]
    by (auto simp: avx_build_def neon_build_def split: sum.splits)
qed

text \<open>
  Claim C4, as far as the code goes. When OverlapSave is selected for \<open>hLength > 0\<close>
  (\<open>xLength > 2 * hLength\<close> and \<open>xLength > 200\<close>), \<^verbatim>\<open>convolve_initialize\<close> fails the assertion
  \<open>hLength < xLength / 2\<close> exactly when \<open>hLength \<ge> xLength / 2\<close>. This is not excluded by
  the selection: the division rounds down, so every odd \<open>xLength = 2 * hLength + 1\<close> above
  \<open>200\<close> is selected for OverlapSave and fails the assertion. For the other selected
  lengths a handle is returned when the kernel is shorter than \<open>2 ^ 29\<close> samples, and only
  then: from there on the transform size does not fit an \<^verbatim>\<open>int\<close>.
\<close>

theorem convolve_initialize_overlap_save_precondition:
  "0 < hLength \<Longrightarrow> 2 * hLength < xLength \<Longrightarrow> 200 < xLength \<Longrightarrow>
   (convolve_initialize b junk1 junk2 xLength hLength
      = Inl (AssertionFailed ''hLength < xLength / 2'')) = (xLength div 2 \<le> hLength)
   \<and> (xLength div 2 \<le> hLength) = (xLength = 2 * hLength + 1)
   \<and> (\<exists>hdl. convolve_initialize b junk1 junk2 xLength hLength = Inr hdl)
       = (hLength < xLength div 2 \<and> hLength < 2 ^ 29)"
proof -
  assume a: "0 < hLength" "2 * hLength < xLength" "200 < xLength"
  let ?r = "convolve_initialize b junk1 junk2 xLength hLength"
  let ?i = "convolve_overlap_save_initialize junk1 junk2 xLength hLength"
  have eq: "(xLength div 2 \<le> hLength) = (xLength = 2 * hLength + 1)" using a by linarith
  have t: "to_size_t (int hLength * 2) < xLength" using a(2) by (intro select_test) simp
  have r: "?r = bindE ?i (\<lambda>s.
         Inr \<lparr>algorithm = kConvolutionAlgorithmOverlapSave, x_length = xLength,
              h_length = hLength, handle = os s\<rparr>)"
    using t a(3) by (rule convolve_initialize_os)
  show ?thesis
  proof (cases "hLength < xLength div 2")
    case True
    have 1: "?r \<noteq> Inl (AssertionFailed ''hLength < xLength / 2'')"
      using convolve_overlap_save_initialize_passes [OF True, of junk1 junk2]
      unfolding r by (cases ?i) simp_all
    have 2: "(\<exists>hdl. ?r = Inr hdl) = (hLength < 2 ^ 29)"
    proof
      assume "\<exists>hdl. ?r = Inr hdl"
      then obtain s where "?i = Inr s" unfolding r by (cases ?i) simp_all
      then show "hLength < 2 ^ 29" by (rule convolve_overlap_save_initialize_Inr)
    next
      assume "hLength < 2 ^ 29"
      then obtain s where "?i = Inr s"
        using convolve_overlap_save_initialize_ok [OF a(1) True] by blast
      then show "\<exists>hdl. ?r = Inr hdl" unfolding r by simp
    qed
    show ?thesis using True eq 1 2 by simp
  next
    case False
    then have "?r = Inl (AssertionFailed ''hLength < xLength / 2'')"
      unfolding r by (simp add: convolve_overlap_save_initialize_fail)
    then show ?thesis using False eq by auto
  qed
qed

theorem convolve_initialize_overlap_save_precondition_witness:
  "convolve_initialize avx_build junk0 junk0 201 100
     = Inl (AssertionFailed ''hLength < xLength / 2'')"
  using convolve_initialize_overlap_save_precondition [of 100 201 avx_build junk0 junk0]
  by simp

text \<open>
  Claim C6 at two failing inputs. With a zero length, \<^verbatim>\<open>convolve_initialize\<close> selects the
  direct convolver, which has no initialiser, and returns a handle: for \<open>xLength = 0\<close>,
  \<open>hLength = 5\<close>, and for \<open>xLength = 5\<close>, \<open>hLength = 0\<close>. Each of the two initialisers that it
  calls for the other selections fails an assertion for these lengths, and so does
  \<^verbatim>\<open>convolve_simd\<close> when the handle is executed.
\<close>

theorem convolve_initialize_accepts_zero_length:
  "convolve_initialize avx_build junk0 junk0 0 5
     = Inr \<lparr>algorithm = kConvolutionAlgorithmBruteForce, x_length = 0, h_length = 5,
            handle = unset\<rparr>
   \<and> convolve_initialize avx_build junk0 junk0 5 0
     = Inr \<lparr>algorithm = kConvolutionAlgorithmBruteForce, x_length = 5, h_length = 0,
            handle = unset\<rparr>
   \<and> convolve_fft_initialize junk0 junk0 0 5 = Inl (AssertionFailed ''xLength > 0'')
   \<and> convolve_fft_initialize junk0 junk0 5 0 = Inl (AssertionFailed ''hLength > 0'')
   \<and> convolve_overlap_save_initialize junk0 junk0 0 5
     = Inl (AssertionFailed ''hLength < xLength / 2'')
   \<and> convolve_overlap_save_initialize junk0 junk0 5 0 = Inl (AssertionFailed ''hLength > 0'')
   \<and> convolve avx_build \<lparr>algorithm = kConvolutionAlgorithmBruteForce, x_length = 0,
          h_length = 5, handle = unset\<rparr> [] [1, 2, 3, 4, 5] [0, 0, 0, 0]
     = Some (Inl (AssertionFailed ''xLength > 0''))
   \<and> convolve avx_build \<lparr>algorithm = kConvolutionAlgorithmBruteForce, x_length = 5,
          h_length = 0, handle = unset\<rparr> [1, 2, 3, 4, 5] [] [0, 0, 0, 0]
     = Some (Inl (AssertionFailed ''hLength > 0''))"
  by (simp add: convolve_initialize_def convolve_fft_initialize_def
      convolve_overlap_save_initialize_def convolve_def convolve_simd_def assertE_def
      avx_build_def to_size_t_def)



subsection \<open>The reverse flag\<close>



lemma rmemcpyf_rev:
  "int (length h) = n \<Longrightarrow> rmemcpyf dst h n = memcpy dst 0 (rev h) 0 n"
  by (auto simp add: rmemcpyf_def memcpy_def read_range_def)

lemma snd_bindE:
  "map_sum (\<lambda>e. e) snd (bindE r f) = bindE r (\<lambda>v. map_sum (\<lambda>e. e) snd (f v))"
  by (cases r) simp_all

text \<open>
  Claim C9. For a handle of either transform-based convolver and a kernel \<open>h\<close> of the
  recorded length, the call with the reverse flag set has the same outcome (the same
  output, or the same error) as the call on the same handle with the flag clear and the
  kernel \<open>rev h\<close>.
\<close>

theorem reverse_flag:
  "r \<noteq> 0 \<Longrightarrow> length h = fft_h_length f \<Longrightarrow> length h = os_h_length s \<Longrightarrow>
   map_sum (\<lambda>e. e) snd (convolve_fft b (f\<lparr>fft_reverse := r\<rparr>) x h result)
     = map_sum (\<lambda>e. e) snd (convolve_fft b (f\<lparr>fft_reverse := 0\<rparr>) x (rev h) result)
   \<and> map_option (map_sum (\<lambda>e. e) snd) (convolve_overlap_save b (s\<lparr>os_reverse := r\<rparr>) y h out)
     = map_option (map_sum (\<lambda>e. e) snd) (convolve_overlap_save b (s\<lparr>os_reverse := 0\<rparr>) y (rev h) out)"
proof -
  assume a: "r \<noteq> 0" "length h = fft_h_length f" "length h = os_h_length s"
  have 1: "rmemcpyf (fft_inputs1 f) h (int (fft_h_length f))
         = memcpy (fft_inputs1 f) 0 (rev h) 0 (int (fft_h_length f))"
    using a(2) by (intro rmemcpyf_rev) simp
  have 2: "rmemcpyf (os_fft_boiler_plate s) h (int (os_h_length s))
         = memcpy (os_fft_boiler_plate s) 0 (rev h) 0 (int (os_h_length s))"
    using a(3) by (intro rmemcpyf_rev) simp
  have fft: "map_sum (\<lambda>e. e) snd (convolve_fft b (f\<lparr>fft_reverse := r\<rparr>) x h result)
     = map_sum (\<lambda>e. e) snd (convolve_fft b (f\<lparr>fft_reverse := 0\<rparr>) x (rev h) result)"
    using a(1) 1 by (simp add: convolve_fft_def Let_def snd_bindE)
  have os: "map_option (map_sum (\<lambda>e. e) snd) (convolve_overlap_save b (s\<lparr>os_reverse := r\<rparr>) y h out)
     = map_option (map_sum (\<lambda>e. e) snd) (convolve_overlap_save b (s\<lparr>os_reverse := 0\<rparr>) y (rev h) out)"
    using a(1) 2
    by (simp add: convolve_overlap_save_def Let_def option.map_comp comp_def snd_bindE)
  show ?thesis using fft os by simp
qed


subsection \<open>Runs of the transform convolvers on small inputs\<close>


lemma dft2: "dft_coeff 2 [a, b, c, d] 0 = of_real (a + b)" "dft_coeff 2 [a, b, c, d] (Suc 0) = of_real (a - b)"
  by (simp_all add: dft_coeff_def numeral_2_eq_2 cis_cnj [symmetric])

lemma fwd2: "fftf_forward 2 [a, b, c, d] = Inr [a + b, 0, a - b, 0]"
  by (simp add: fftf_forward_def dft2 upt_rec)

lemma bwd2: "fftf_backward 2 [p, q, r, s] = Inr [p + r, p - r, r, s]"
  by (simp add: fftf_backward_def idft_sample_def full_spectrum_def half_spectrum_def upt_rec numeral_2_eq_2)

lemma mul2: "multiply_spectra plain_build [a0, a1, a2, a3] [c0, c1, c2, c3] 2
   = Inr [a0 * c0 - a1 * c1, a0 * c1 + c0 * a1, a2 * c2 - a3 * c3, a2 * c3 + c2 * a3]"
  by (simp add: multiply_spectra_def plain_build_def multiply_na_loop.simps complex_multiply_na_def
      read_range_def write_range_def)

lemma init12: "convolve_fft_initialize junk0 junk0 1 2 =
  Inr \<lparr>fft_M = 2, fft_x_length = 1, fft_h_length = 2, fft_reverse = 0,
             fft_inputs0 = [0, 0, 0, 0], fft_inputs1 = [0, 0, 0, 0]\<rparr>"
  by (simp add: convolve_fft_initialize_def assertE_def memsetf_def mallocf_def write_range_def
      junk0_def upt_rec numeral_eq_Suc to_int_def to_size_t_def)

lemma run1: "convolve_fft plain_build \<lparr>fft_M = 2, fft_x_length = 1, fft_h_length = 2, fft_reverse = 0,
             fft_inputs0 = [0, 0, 0, 0], fft_inputs1 = [0, 0, 0, 0]\<rparr> [1] [1, 1] [0, 0]
    = Inr (\<lparr>fft_M = 2, fft_x_length = 1, fft_h_length = 2, fft_reverse = 0,
             fft_inputs0 = [2, 2, 0, 0], fft_inputs1 = [2, 0, 0, 0]\<rparr>, [1, 1])"
  by (simp add: convolve_fft_def memcpy_def read_range_def write_range_def fwd2 bwd2 mul2 real_multiply_scalar_def)

lemma run2: "convolve_fft plain_build \<lparr>fft_M = 2, fft_x_length = 1, fft_h_length = 2, fft_reverse = 0,
             fft_inputs0 = [2, 2, 0, 0], fft_inputs1 = [2, 0, 0, 0]\<rparr> [1] [1, 1] [0, 0]
    = Inr (\<lparr>fft_M = 2, fft_x_length = 1, fft_h_length = 2, fft_reverse = 0,
             fft_inputs0 = [6, 6, 0, 0], fft_inputs1 = [2, 0, 0, 0]\<rparr>, [3, 3])"
  by (simp add: convolve_fft_def memcpy_def read_range_def write_range_def fwd2 bwd2 mul2 real_multiply_scalar_def)


text \<open>
  Claim C3 at a failing input. A handle of the single-shot transform convolver for
  \<open>xLength = 1\<close> and \<open>hLength = 2\<close> (transform size 2), executed twice on \<open>x = [1]\<close> and
  \<open>h = [1, 1]\<close>: the first call returns \<open>[1, 1]\<close>, the second \<open>[3, 3]\<close>. The padding of the
  buffers is zeroed by the initialiser only; the first call leaves its unnormalised
  output \<open>[2, 2]\<close> in the first buffer, of which the second call overwrites one cell.
\<close>

theorem convolve_fft_second_call_differs:
  "bindE (convolve_fft_initialize junk0 junk0 1 2) (\<lambda>f0.
   bindE (convolve_fft plain_build f0 [1] [1, 1] [0, 0]) (\<lambda>(f1, r1).
   bindE (convolve_fft plain_build f1 [1] [1, 1] [0, 0]) (\<lambda>(f2, r2).
   Inr (r1, r2)))) = Inr ([1, 1], [3, 3])"
  by (simp only: init12 run1 run2 bindE_Inr case_prod_conv)

subsection \<open>The overlap-save convolver\<close>


lemma length_write_range: "write_range p off vs = Inr q \<Longrightarrow> length q = length p"
  by (auto simp add: write_range_def split: if_splits)

lemma length_memsetf: "memsetf p off v n = Inr q \<Longrightarrow> length q = length p"
  by (auto simp add: memsetf_def dest: length_write_range split: if_splits)

lemma length_memcpy: "memcpy dst doff src soff n = Inr q \<Longrightarrow> length q = length dst"
  by (cases "read_range src soff n") (auto simp add: memcpy_def dest: length_write_range)

lemma length_fftf_forward: "fftf_forward L buf = Inr out \<Longrightarrow> length out = length buf"
  by (auto simp add: fftf_forward_def length_concat comp_def sum_list_triv split: if_splits)

lemma memcpy_ok:
  "0 \<le> soff \<Longrightarrow> 0 \<le> n \<Longrightarrow> soff + n \<le> int (length src) \<Longrightarrow> 0 \<le> doff \<Longrightarrow>
   doff + n \<le> int (length dst) \<Longrightarrow>
   memcpy dst doff src soff n
     = Inr (take (nat doff) dst @ take (nat n) (drop (nat soff) src) @ drop (nat doff + nat n) dst)"
  by (simp add: memcpy_def read_range_def write_range_def; linarith)

lemma memsetf_ok:
  "0 \<le> off \<Longrightarrow> 0 \<le> n \<Longrightarrow> off + n \<le> int (length p) \<Longrightarrow>
   memsetf p off v n = Inr (take (nat off) p @ replicate (nat n) v @ drop (nat off + nat n) p)"
  by (simp add: memsetf_def write_range_def)

lemma fftf_forward_ok:
  "0 < L \<Longrightarrow> even L \<Longrightarrow> int (length buf) = L + 2 \<Longrightarrow> \<exists>out. fftf_forward L buf = Inr out"
  by (auto simp add: fftf_forward_def elim!: evenE)


lemma os_L_facts:
  assumes "os_handle_ok s"
  shows "int (os_h_length s) < os_L s" "even (os_L s)" "0 < os_L s"
proof -
  obtain d where d: "os_L s = 2 ^ (d + 2)" "os_h_length s < 2 ^ (d + 1)"
    using assms by (auto simp add: os_handle_ok_def)
  have "int (os_h_length s) < 2 ^ (d + 1)" using d(2) by (simp only: nat_pow_int_less)
  moreover have "(2::int) ^ (d + 1) \<le> 2 ^ (d + 2)" by (intro power_increasing) simp_all
  ultimately show "int (os_h_length s) < os_L s" using d(1) by linarith
  show "even (os_L s)" "0 < os_L s" using d(1) by simp_all
qed

text \<open>The preparation of an execute call, lines 167 to 176, on a handle as the initialiser
  returns it.\<close>

lemma overlap_save_prep_ok:
  assumes "os_handle_ok s" "length h = os_h_length s"
  shows "\<exists>bp3 H.
     bindE (if os_reverse s \<noteq> 0 then rmemcpyf (os_fft_boiler_plate s) h (int (os_h_length s))
            else memcpy (os_fft_boiler_plate s) 0 h 0 (int (os_h_length s))) (\<lambda>bp1.
     bindE (memsetf bp1 (int (os_h_length s)) 0 (os_L s - int (os_h_length s))) (\<lambda>bp2.
     bindE (fftf_forward (os_L s) bp2) (\<lambda>bp3.
     bindE (memcpy (os_H s) 0 bp3 0 (os_L s + 2)) (\<lambda>H. Inr (bp3, H))))) = Inr (bp3, H)
     \<and> int (length bp3) = os_L s + 2 \<and> int (length H) = os_L s + 2"
proof -
  let ?M = "os_h_length s" and ?L = "os_L s" and ?bp = "os_fft_boiler_plate s"
  have M: "0 < ?M" and lH: "int (length (os_H s)) = ?L + 2"
    and lbp: "int (length ?bp) = ?L + 2"
    using assms(1) by (simp_all add: os_handle_ok_def)
  have bnd: "int ?M < ?L" "even ?L" "0 < ?L" using os_L_facts [OF assms(1)] by simp_all
  have "\<exists>bp1. (if os_reverse s \<noteq> 0 then rmemcpyf ?bp h (int ?M) else memcpy ?bp 0 h 0 (int ?M)) = Inr bp1"
    using assms(2) lbp bnd
    by (simp add: rmemcpyf_def memcpy_def read_range_def write_range_def)
  then obtain bp1 where bp1: "(if os_reverse s \<noteq> 0 then rmemcpyf ?bp h (int ?M) else memcpy ?bp 0 h 0 (int ?M)) = Inr bp1" ..
  have l1: "int (length bp1) = ?L + 2"
    using bp1 lbp
    by (auto simp add: rmemcpyf_def memcpy_def read_range_def dest: length_write_range split: if_splits)
  have "\<exists>bp2. memsetf bp1 (int ?M) 0 (?L - int ?M) = Inr bp2"
    using l1 bnd by (simp add: memsetf_def write_range_def)
  then obtain bp2 where bp2: "memsetf bp1 (int ?M) 0 (?L - int ?M) = Inr bp2" ..
  have l2: "int (length bp2) = ?L + 2" using length_memsetf [OF bp2] l1 by simp
  obtain bp3 where bp3: "fftf_forward ?L bp2 = Inr bp3"
    using fftf_forward_ok [OF bnd(3,2) l2] by blast
  have l3: "int (length bp3) = ?L + 2" using length_fftf_forward [OF bp3] l2 by simp
  have "\<exists>H. memcpy (os_H s) 0 bp3 0 (?L + 2) = Inr H"
    using l3 lH bnd by (simp add: memcpy_def read_range_def write_range_def)
  then obtain H where H: "memcpy (os_H s) 0 bp3 0 (?L + 2) = Inr H" ..
  have lH': "int (length H) = ?L + 2" using length_memcpy [OF H] lH by simp
  show ?thesis using bp1 bp2 bp3 H l3 lH' by simp
qed

lemma overlap_save_first_block_fails:
  assumes "os_handle_ok s" "length h = os_h_length s" "length x = os_x_length s"
    and "int (os_x_length s) < os_L s - (int (os_h_length s) - 1)" "0 < os_x_length s"
  shows "convolve_overlap_save b s x h result = Some (Inl OutOfBounds)"
proof -
  let ?M = "os_h_length s" and ?L = "os_L s" and ?N = "os_x_length s"
  let ?step = "?L - (int ?M - 1)"
  obtain bp3 H where prep:
     "bindE (if os_reverse s \<noteq> 0 then rmemcpyf (os_fft_boiler_plate s) h (int (os_h_length s))
            else memcpy (os_fft_boiler_plate s) 0 h 0 (int (os_h_length s))) (\<lambda>bp1.
     bindE (memsetf bp1 (int (os_h_length s)) 0 (os_L s - int (os_h_length s))) (\<lambda>bp2.
     bindE (fftf_forward (os_L s) bp2) (\<lambda>bp3.
     bindE (memcpy (os_H s) 0 bp3 0 (os_L s + 2)) (\<lambda>H. Inr (bp3, H))))) = Inr (bp3, H)"
     and l3: "int (length bp3) = ?L + 2"
    using overlap_save_prep_ok [OF assms(1,2)] by blast
  have M: "0 < ?M" using assms(1) by (simp add: os_handle_ok_def)
  have bnd: "int ?M < ?L" using os_L_facts(1) [OF assms(1)] .
  have "\<exists>bp'. memsetf bp3 0 0 (int ?M - 1) = Inr bp'"
    using l3 M bnd by (simp add: memsetf_def write_range_def)
  then obtain bp' where bp': "memsetf bp3 0 0 (int ?M - 1) = Inr bp'" ..
  have rd: "memcpy bp' (int ?M - 1) x 0 ?step = Inl OutOfBounds"
    using assms(3,4) by (simp add: memcpy_def read_range_def)
  have blk: "overlap_save_block b ?N ?M ?L x H ?step 0 (bp3, result) = Inl OutOfBounds"
    using bp' rd by (simp add: overlap_save_block_def)
  have "0 < ?N" using assms(5) .
  then have "overlap_save_loop b ?N ?M ?L x H ?step 0 (bp3, result) = Some (Inl OutOfBounds)"
    using M blk by (subst overlap_save_loop.simps) simp
  then show ?thesis
    unfolding convolve_overlap_save_def Let_def prep by simp
qed

lemma os_handle_ok_initialize:
  assumes "convolve_overlap_save_initialize junk1 junk2 xLength hLength = Inr s"
  shows "os_handle_ok s \<and> os_x_length s = xLength \<and> os_h_length s = hLength \<and> os_reverse s = 0
     \<and> hLength < xLength div 2"
  using convolve_overlap_save_initialize_Inr [OF assms] by simp


subsection \<open>The discrete Fourier transform\<close>

lemma nat_2_int [simp]: "nat (2 * int m) = 2 * m"
  by linarith

lemma cis_eq_1_iff: "cis t = 1 \<longleftrightarrow> (\<exists>n::int. t = real_of_int n * 2 * pi)"
proof -
  have "cis t = 1 \<longleftrightarrow> cos t = 1"
    by (auto simp add: complex_eq_iff dest: cos_one_sin_zero)
  then show ?thesis by (simp add: cos_one_2pi_int)
qed

lemma unit_root_eq_1_iff:
  assumes "0 < L"
  shows "cis (2 * pi * real_of_int j / real L) = 1 \<longleftrightarrow> int L dvd j"
proof
  assume "cis (2 * pi * real_of_int j / real L) = 1"
  then obtain n :: int where n: "2 * pi * real_of_int j / real L = real_of_int n * 2 * pi"
    using cis_eq_1_iff by blast
  have "real_of_int j = real_of_int n * real L"
  proof -
    have "2 * pi * real_of_int j = real_of_int n * 2 * pi * real L"
      using n assms by (simp add: field_simps)
    then have "2 * pi * real_of_int j = 2 * pi * (real_of_int n * real L)" by simp
    then show ?thesis using pi_gt_zero by simp
  qed
  then have "real_of_int j = real_of_int (n * int L)" by simp
  then have "j = n * int L" by (simp only: of_int_eq_iff)
  then show "int L dvd j" by simp
next
  assume "int L dvd j"
  then obtain n where n: "j = int L * n" ..
  have "2 * pi * real_of_int j / real L = real_of_int n * 2 * pi"
    using assms by (simp add: n)
  then show "cis (2 * pi * real_of_int j / real L) = 1"
    using cis_eq_1_iff by blast
qed

lemma unit_root_sum:
  assumes "0 < L"
  shows "(\<Sum>k = 0..<L. cis (2 * pi * real k * real_of_int j / real L))
       = (if int L dvd j then of_nat L else 0)"
proof -
  define z where "z = cis (2 * pi * real_of_int j / real L)"
  have pw: "cis (2 * pi * real k * real_of_int j / real L) = z ^ k" for k
    by (simp add: z_def DeMoivre algebra_simps)
  have zL: "z ^ L = 1"
  proof -
    have "z ^ L = cis (2 * pi * real_of_int j)" using assms by (simp add: z_def DeMoivre)
    then show ?thesis by (simp add: cis_multiple_2pi)
  qed
  have "(\<Sum>k = 0..<L. cis (2 * pi * real k * real_of_int j / real L)) = sum ((^) z) {..<L}"
    by (simp add: pw atLeast0LessThan)
  also have "\<dots> = (if z = 1 then of_nat L else (1 - z ^ L) / (1 - z))"
    by (rule sum_gp_strict)
  also have "\<dots> = (if int L dvd j then of_nat L else 0)"
    using unit_root_eq_1_iff [OF assms, of j] zL by (simp add: z_def)
  finally show ?thesis .
qed


lemma dft_product_sum:
  assumes "0 < L"
  shows "(\<Sum>k = 0..<L. dft_coeff L A k * dft_coeff L C k * cis (2 * pi * real k * real n / real L))
       = of_nat L * (\<Sum>a = 0..<L. \<Sum>c = 0..<L.
           if int L dvd int n - int a - int c then of_real (A ! a * C ! c) else 0)"
proof -
  let ?w = "\<lambda>k (j::int). cis (2 * pi * real k * real_of_int j / real L)"
  have tm: "of_real (A ! a) * cis (- (2 * pi * real k * real a / real L))
        * (of_real (C ! c) * cis (- (2 * pi * real k * real c / real L)))
        * cis (2 * pi * real k * real n / real L)
      = of_real (A ! a * C ! c) * ?w k (int n - int a - int c)" for k a c
  proof -
    have "- (2 * pi * real k * real a / real L) + - (2 * pi * real k * real c / real L)
        + 2 * pi * real k * real n / real L
        = 2 * pi * real k * real_of_int (int n - int a - int c) / real L"
      using assms by (simp add: field_simps)
    then have "cis (- (2 * pi * real k * real a / real L)) * cis (- (2 * pi * real k * real c / real L))
        * cis (2 * pi * real k * real n / real L) = ?w k (int n - int a - int c)"
      by (simp only: cis_mult)
    then show ?thesis by (simp add: mult_ac)
  qed
  have "(\<Sum>k = 0..<L. dft_coeff L A k * dft_coeff L C k * cis (2 * pi * real k * real n / real L))
      = (\<Sum>k = 0..<L. \<Sum>a = 0..<L. \<Sum>c = 0..<L.
           of_real (A ! a * C ! c) * ?w k (int n - int a - int c))"
  proof (rule sum.cong [OF refl])
    fix k
    have "dft_coeff L A k * dft_coeff L C k * cis (2 * pi * real k * real n / real L)
        = (\<Sum>c = 0..<L. \<Sum>a = 0..<L.
            of_real (A ! a) * cis (- (2 * pi * real k * real a / real L))
            * (of_real (C ! c) * cis (- (2 * pi * real k * real c / real L)))
            * cis (2 * pi * real k * real n / real L))"
      by (simp only: dft_coeff_def sum_distrib_right sum_distrib_left)
    also have "\<dots> = (\<Sum>a = 0..<L. \<Sum>c = 0..<L.
            of_real (A ! a) * cis (- (2 * pi * real k * real a / real L))
            * (of_real (C ! c) * cis (- (2 * pi * real k * real c / real L)))
            * cis (2 * pi * real k * real n / real L))"
      by (rule sum.swap)
    also have "\<dots> = (\<Sum>a = 0..<L. \<Sum>c = 0..<L.
           of_real (A ! a * C ! c) * ?w k (int n - int a - int c))"
      by (simp only: tm)
    finally show "dft_coeff L A k * dft_coeff L C k * cis (2 * pi * real k * real n / real L)
        = (\<Sum>a = 0..<L. \<Sum>c = 0..<L.
           of_real (A ! a * C ! c) * ?w k (int n - int a - int c))" .
  qed
  also have "\<dots> = (\<Sum>a = 0..<L. \<Sum>k = 0..<L. \<Sum>c = 0..<L.
           of_real (A ! a * C ! c) * ?w k (int n - int a - int c))"
    by (rule sum.swap)
  also have "\<dots> = (\<Sum>a = 0..<L. \<Sum>c = 0..<L. \<Sum>k = 0..<L.
           of_real (A ! a * C ! c) * ?w k (int n - int a - int c))"
    by (rule sum.cong [OF refl]) (rule sum.swap)
  also have "\<dots> = (\<Sum>a = 0..<L. \<Sum>c = 0..<L.
           of_real (A ! a * C ! c) * (if int L dvd int n - int a - int c then of_nat L else 0))"
    unfolding sum_distrib_left [symmetric] unit_root_sum [OF assms] ..
  also have "\<dots> = of_nat L * (\<Sum>a = 0..<L. \<Sum>c = 0..<L.
           if int L dvd int n - int a - int c then of_real (A ! a * C ! c) else 0)"
    unfolding sum_distrib_left by (intro sum.cong refl) simp
  finally show ?thesis .
qed

lemma dft_coeff_hermitian:
  assumes "0 < L" "k \<le> L"
  shows "dft_coeff L A (L - k) = cnj (dft_coeff L A k)"
proof -
  have "cis (- (2 * pi * real (L - k) * real n / real L)) = cis (2 * pi * real k * real n / real L)" for n
  proof -
    have "- (2 * pi * real (L - k) * real n / real L)
        = 2 * pi * real k * real n / real L + - (2 * pi * real n)"
      using assms by (simp add: of_nat_diff field_simps)
    then have "cis (- (2 * pi * real (L - k) * real n / real L))
        = cis (2 * pi * real k * real n / real L) * cis (- (2 * pi * real n))"
      by (simp only: cis_mult)
    moreover have "cis (- (2 * pi * real n)) = 1"
      by (simp add: cis_cnj [symmetric] cis_multiple_2pi)
    ultimately show ?thesis by simp
  qed
  then show ?thesis
    by (simp add: dft_coeff_def cis_cnj)
qed

lemma length_pack: "length (concat (map (\<lambda>k. [f k, g k]) [0..<m])) = 2 * m"
  by (induction m) simp_all

lemma nth_pack:
  "k < m \<Longrightarrow> (concat (map (\<lambda>k. [f k, g k]) [0..<m]) @ rest) ! (2 * k) = f k
     \<and> (concat (map (\<lambda>k. [f k, g k]) [0..<m]) @ rest) ! (2 * k + 1) = g k"
proof (induction m arbitrary: rest)
  case 0
  then show ?case by simp
next
  case (Suc m)
  show ?case
  proof (cases "k < m")
    case True
    have "concat (map (\<lambda>k. [f k, g k]) [0..<Suc m]) @ rest
        = concat (map (\<lambda>k. [f k, g k]) [0..<m]) @ (f m # g m # rest)" by simp
    then show ?thesis using Suc.IH [OF True, of "f m # g m # rest"] by simp
  next
    case False
    then have k: "k = m" using Suc.prems by simp
    show ?thesis
      by (simp add: k nth_append length_pack)
  qed
qed

lemma half_spectrum_forward:
  assumes "fftf_forward L buf = Inr F" "k \<le> nat L div 2"
  shows "half_spectrum F k = dft_coeff (nat L) buf k"
proof -
  have F: "F = concat (map (\<lambda>k. [Re (dft_coeff (nat L) buf k), Im (dft_coeff (nat L) buf k)])
                            [0..<nat L div 2 + 1]) @ drop (2 * (nat L div 2 + 1)) buf"
    using assms(1) by (auto simp add: fftf_forward_def split: if_splits)
  have "k < nat L div 2 + 1" using assms(2) by simp
  then show ?thesis
    unfolding F half_spectrum_def
    using nth_pack [of k "nat L div 2 + 1" "\<lambda>k. Re (dft_coeff (nat L) buf k)"
        "\<lambda>k. Im (dft_coeff (nat L) buf k)"]
    by (simp add: complex_eq_iff)
qed

subsection \<open>The memory routines, cell by cell\<close>

lemma write_range_nth:
  assumes "off + length vs \<le> length p"
  shows "\<exists>q. write_range p (int off) vs = Inr q \<and> length q = length p
     \<and> (\<forall>j<length p. q ! j = (if off \<le> j \<and> j < off + length vs then vs ! (j - off) else p ! j))"
proof -
  let ?q = "take off p @ vs @ drop (off + length vs) p"
  have 1: "write_range p (int off) vs = Inr ?q" using assms by (simp add: write_range_def)
  have 2: "length ?q = length p" using assms by simp
  have 3: "?q ! j = (if off \<le> j \<and> j < off + length vs then vs ! (j - off) else p ! j)"
    if "j < length p" for j
    using that assms by (auto simp add: nth_append)
  show ?thesis using 1 2 3 by blast
qed

lemma memcpy_nth:
  assumes "soff + n \<le> length src" "doff + n \<le> length dst"
  shows "\<exists>q. memcpy dst (int doff) src (int soff) (int n) = Inr q \<and> length q = length dst
     \<and> (\<forall>j<length dst. q ! j = (if doff \<le> j \<and> j < doff + n then src ! (soff + (j - doff)) else dst ! j))"
proof -
  have r: "read_range src (int soff) (int n) = Inr (take n (drop soff src))"
    using assms(1) by (simp add: read_range_def)
  have l: "length (take n (drop soff src)) = n" using assms(1) by simp
  obtain q where q: "write_range dst (int doff) (take n (drop soff src)) = Inr q"
      "length q = length dst"
      "\<forall>j<length dst. q ! j = (if doff \<le> j \<and> j < doff + length (take n (drop soff src))
          then take n (drop soff src) ! (j - doff) else dst ! j)"
    using write_range_nth [of doff "take n (drop soff src)" dst] assms(2) l by auto
  have "q ! j = (if doff \<le> j \<and> j < doff + n then src ! (soff + (j - doff)) else dst ! j)"
    if "j < length dst" for j
    using q(3) that l assms(1) by auto
  then show ?thesis using q(1,2) r by (simp add: memcpy_def)
qed

lemma memsetf_nth:
  assumes "off + n \<le> length p"
  shows "\<exists>q. memsetf p (int off) v (int n) = Inr q \<and> length q = length p
     \<and> (\<forall>j<length p. q ! j = (if off \<le> j \<and> j < off + n then v else p ! j))"
proof -
  obtain q where q: "write_range p (int off) (replicate n v) = Inr q" "length q = length p"
      "\<forall>j<length p. q ! j = (if off \<le> j \<and> j < off + length (replicate n v)
          then replicate n v ! (j - off) else p ! j)"
    using write_range_nth [of off "replicate n v" p] assms by auto
  have "q ! j = (if off \<le> j \<and> j < off + n then v else p ! j)" if "j < length p" for j
    using q(3) that by auto
  then show ?thesis using q(1,2) by (simp add: memsetf_def)
qed

lemma real_multiply_scalar_nth:
  assumes "soff + n \<le> length src" "doff + n \<le> length dst"
  shows "\<exists>q. real_multiply_scalar src (int soff) (int n) v dst (int doff) = Inr q
     \<and> length q = length dst
     \<and> (\<forall>j<length dst. q ! j = (if doff \<le> j \<and> j < doff + n then src ! (soff + (j - doff)) * v else dst ! j))"
proof -
  have r: "read_range src (int soff) (int n) = Inr (take n (drop soff src))"
    using assms(1) by (simp add: read_range_def)
  let ?vs = "map (\<lambda>a. a * v) (take n (drop soff src))"
  have l: "length ?vs = n" using assms(1) by simp
  obtain q where q: "write_range dst (int doff) ?vs = Inr q" "length q = length dst"
      "\<forall>j<length dst. q ! j = (if doff \<le> j \<and> j < doff + length ?vs then ?vs ! (j - doff) else dst ! j)"
    using write_range_nth [of doff ?vs dst] assms(2) l by auto
  have "q ! j = (if doff \<le> j \<and> j < doff + n then src ! (soff + (j - doff)) * v else dst ! j)"
    if "j < length dst" for j
    using q(3) that l assms(1) by auto
  then show ?thesis using q(1,2) r by (simp add: real_multiply_scalar_def)
qed

subsection \<open>The product of two spectra\<close>

lemma take_2_nth: "2 \<le> length xs \<Longrightarrow> take 2 xs = [xs ! 0, xs ! 1]"
  by (cases xs; cases "tl xs") auto

lemma read_range_pair:
  assumes "n + 2 \<le> length a"
  shows "read_range a (int n) 2 = Inr [a ! n, a ! (n + 1)]"
proof -
  have "take 2 (drop n a) = [a ! n, a ! (n + 1)]"
    using assms by (simp add: take_2_nth)
  then show ?thesis using assms by (simp add: read_range_def)
qed

lemma complex_multiply_na_pair:
  assumes "2 * j + 2 \<le> length a" "2 * j + 2 \<le> length c"
  shows "\<exists>a'. complex_multiply_na a c (int (2 * j)) = Inr a' \<and> length a' = length a
     \<and> half_spectrum a' j = half_spectrum a j * half_spectrum c j
     \<and> (\<forall>k. k \<noteq> j \<longrightarrow> half_spectrum a' k = half_spectrum a k)"
proof -
  let ?p = "a ! (2 * j) * c ! (2 * j) - a ! (2 * j + 1) * c ! (2 * j + 1)"
  let ?q = "a ! (2 * j) * c ! (2 * j + 1) + c ! (2 * j) * a ! (2 * j + 1)"
  let ?a' = "a[2 * j := ?p, 2 * j + 1 := ?q]"
  have ra: "read_range a (int (2 * j)) 2 = Inr [a ! (2 * j), a ! (2 * j + 1)]"
    using assms(1) by (rule read_range_pair)
  have rc: "read_range c (int (2 * j)) 2 = Inr [c ! (2 * j), c ! (2 * j + 1)]"
    using assms(2) by (rule read_range_pair)
  have "take (2 * j) a @ [?p, ?q] @ drop (2 * j + 2) a = ?a'"
    using assms(1) by (simp add: upd_conv_take_nth_drop take_Suc_conv_app_nth [symmetric])
  moreover have "nat (2 * int j) = 2 * j" by linarith
  ultimately have w: "write_range a (int (2 * j)) [?p, ?q] = Inr ?a'"
    using assms(1) by (simp add: write_range_def)
  have 1: "complex_multiply_na a c (int (2 * j)) = Inr ?a'"
    unfolding complex_multiply_na_def ra rc using w by (simp add: Let_def)
  have 2: "half_spectrum ?a' j = half_spectrum a j * half_spectrum c j"
    using assms(1) by (simp add: half_spectrum_def complex_eq_iff)
  have 3: "half_spectrum ?a' k = half_spectrum a k" if "k \<noteq> j" for k
  proof -
    have "2 * k \<noteq> 2 * j" "2 * k \<noteq> 2 * j + 1" "2 * k + 1 \<noteq> 2 * j" "2 * k + 1 \<noteq> 2 * j + 1"
      using that by presburger+
    then show ?thesis by (simp add: half_spectrum_def)
  qed
  show ?thesis using 1 2 3 by (intro exI [of _ ?a']) simp
qed

lemma multiply_na_loop_spectrum:
  assumes "length a = 2 * m + 2" "length c = 2 * m + 2" "j \<le> m + 1"
  shows "\<exists>a'. multiply_na_loop a c (int (2 * j)) (int (2 * m)) = Inr a' \<and> length a' = length a
     \<and> (\<forall>k. half_spectrum a' k
           = (if j \<le> k \<and> k \<le> m then half_spectrum a k * half_spectrum c k else half_spectrum a k))"
  using assms
proof (induction "m + 1 - j" arbitrary: a j)
  case 0
  then have "j = m + 1" by simp
  then show ?case by (subst multiply_na_loop.simps) auto
next
  case (Suc d)
  then have j: "j \<le> m" by simp
  obtain a1 where a1: "complex_multiply_na a c (int (2 * j)) = Inr a1" "length a1 = length a"
      "half_spectrum a1 j = half_spectrum a j * half_spectrum c j"
      "\<forall>k. k \<noteq> j \<longrightarrow> half_spectrum a1 k = half_spectrum a k"
    using complex_multiply_na_pair [of j a c] Suc.prems j by auto
  have "d = m + 1 - (j + 1)" using Suc.hyps(2) by simp
  then obtain a' where a': "multiply_na_loop a1 c (int (2 * (j + 1))) (int (2 * m)) = Inr a'"
      "length a' = length a1"
      "\<forall>k. half_spectrum a' k
           = (if j + 1 \<le> k \<and> k \<le> m then half_spectrum a1 k * half_spectrum c k else half_spectrum a1 k)"
    using Suc.hyps(1) [of "j + 1" a1] Suc.prems a1(2) j by auto
  have "multiply_na_loop a c (int (2 * j)) (int (2 * m)) = multiply_na_loop a1 c (int (2 * j) + 2) (int (2 * m))"
    using j a1(1) by (subst multiply_na_loop.simps) simp
  then have 1: "multiply_na_loop a c (int (2 * j)) (int (2 * m)) = Inr a'"
    using a'(1) by (simp add: algebra_simps)
  have 2: "half_spectrum a' k
           = (if j \<le> k \<and> k \<le> m then half_spectrum a k * half_spectrum c k else half_spectrum a k)" for k
  proof (cases "k = j")
    case True
    then show ?thesis using a'(3) a1(3) j by simp
  next
    case False
    then show ?thesis using a'(3) a1(4) by auto
  qed
  show ?case using 1 2 a'(2) a1(2) by auto
qed

lemma half_spectrum_Cons2: "half_spectrum (p # q # rest) (Suc t) = half_spectrum rest t"
  by (simp add: half_spectrum_def)

lemma complex_multiply_lanes_spectrum:
  "length av = 2 * q \<Longrightarrow> length cv = 2 * q \<Longrightarrow>
   length (complex_multiply_lanes av cv) = 2 * q
   \<and> (\<forall>t<q. half_spectrum (complex_multiply_lanes av cv) t = half_spectrum av t * half_spectrum cv t)"
proof (induction q arbitrary: av cv)
  case 0
  then show ?case by simp
next
  case (Suc q)
  obtain re1 im1 av' where av: "av = re1 # im1 # av'" "length av' = 2 * q"
    using Suc.prems(1) by (cases av; cases "tl av") auto
  obtain re2 im2 cv' where cv: "cv = re2 # im2 # cv'" "length cv' = 2 * q"
    using Suc.prems(2) by (cases cv; cases "tl cv") auto
  have ih: "length (complex_multiply_lanes av' cv') = 2 * q"
    "\<forall>t<q. half_spectrum (complex_multiply_lanes av' cv') t = half_spectrum av' t * half_spectrum cv' t"
    using Suc.IH [OF av(2) cv(2)] by simp_all
  have "half_spectrum (complex_multiply_lanes av cv) t = half_spectrum av t * half_spectrum cv t"
    if "t < Suc q" for t
  proof (cases t)
    case 0
    then show ?thesis by (simp add: av cv half_spectrum_def complex_eq_iff)
  next
    case (Suc t')
    then have "t' < q" using that by simp
    then show ?thesis using ih(2) unfolding Suc av(1) cv(1) by (simp add: half_spectrum_Cons2)
  qed
  then show ?case using ih(1) by (simp add: av cv)
qed

lemma half_spectrum_chunk:
  assumes "2 * j + 2 * q \<le> length a" "t < q"
  shows "half_spectrum (take (2 * q) (drop (2 * j) a)) t = half_spectrum a (j + t)"
  using assms by (simp add: half_spectrum_def algebra_simps)

lemma complex_multiply_chunk:
  assumes "FLOAT_STEP b = 2 * q" "2 * j + 2 * q \<le> length a" "2 * j + 2 * q \<le> length c"
  shows "\<exists>a'. complex_multiply b a c (int (2 * j)) = Inr a' \<and> length a' = length a
     \<and> (\<forall>k. 2 * k + 2 \<le> length a \<longrightarrow> half_spectrum a' k
           = (if j \<le> k \<and> k < j + q then half_spectrum a k * half_spectrum c k else half_spectrum a k))"
proof -
  let ?av = "take (2 * q) (drop (2 * j) a)" and ?cv = "take (2 * q) (drop (2 * j) c)"
  let ?vs = "complex_multiply_lanes ?av ?cv"
  have ra: "read_range a (int (2 * j)) (int (FLOAT_STEP b)) = Inr ?av"
    using assms(1,2) by (simp add: read_range_def)
  have rc: "read_range c (int (2 * j)) (int (FLOAT_STEP b)) = Inr ?cv"
    using assms(1,3) by (simp add: read_range_def)
  have lav: "length ?av = 2 * q" "length ?cv = 2 * q" using assms(2,3) by simp_all
  have vs: "length ?vs = 2 * q"
    "\<forall>t<q. half_spectrum ?vs t = half_spectrum ?av t * half_spectrum ?cv t"
    using complex_multiply_lanes_spectrum [OF lav] by simp_all
  obtain a' where w: "write_range a (int (2 * j)) ?vs = Inr a'" "length a' = length a"
      "\<forall>i<length a. a' ! i = (if 2 * j \<le> i \<and> i < 2 * j + length ?vs then ?vs ! (i - 2 * j) else a ! i)"
  proof -
    have "2 * j + length ?vs \<le> length a" using vs(1) assms(2) by simp
    from write_range_nth [OF this] show ?thesis using that by blast
  qed
  have 1: "complex_multiply b a c (int (2 * j)) = Inr a'"
    unfolding complex_multiply_def ra rc using w(1) by simp
  have 3: "half_spectrum a' k
           = (if j \<le> k \<and> k < j + q then half_spectrum a k * half_spectrum c k else half_spectrum a k)"
    if "2 * k + 2 \<le> length a" for k
  proof (cases "j \<le> k \<and> k < j + q")
    case True
    then have t: "k - j < q" by linarith
    have i: "2 * k - 2 * j = 2 * (k - j)" "Suc (2 * k) - 2 * j = 2 * (k - j) + 1"
      using True by linarith+
    have "half_spectrum a' k = half_spectrum ?vs (k - j)"
      using that w(3) True vs(1) i by (simp add: half_spectrum_def)
    also have "\<dots> = half_spectrum ?av (k - j) * half_spectrum ?cv (k - j)"
      using vs(2) t by blast
    also have "\<dots> = half_spectrum a k * half_spectrum c k"
      using half_spectrum_chunk [OF assms(2) t] half_spectrum_chunk [OF assms(3) t] True by simp
    finally show ?thesis using True by simp
  next
    case False
    then have n: "\<not> (2 * j \<le> 2 * k \<and> 2 * k < 2 * j + length ?vs)"
        "\<not> (2 * j \<le> 2 * k + 1 \<and> 2 * k + 1 < 2 * j + length ?vs)"
      unfolding vs(1) by linarith+
    have b: "2 * k < length a" "2 * k + 1 < length a" using that by linarith+
    have "a' ! (2 * k) = a ! (2 * k)"
      using w(3) [rule_format, OF b(1)] by (simp only: n(1) if_False)
    moreover have "a' ! (2 * k + 1) = a ! (2 * k + 1)"
      using w(3) [rule_format, OF b(2)] by (simp only: n(2) if_False)
    ultimately have "half_spectrum a' k = half_spectrum a k" by (simp only: half_spectrum_def)
    then show ?thesis using False by auto
  qed
  show ?thesis using 1 w(2) 3 by blast
qed

lemma multiply_simd_loop_spectrum:
  assumes "FLOAT_STEP b = 2 * q" "length c = 2 * m + 2"
  shows "length a = 2 * m + 2 \<Longrightarrow> j \<le> m \<Longrightarrow> q dvd m - j \<Longrightarrow>
     \<exists>a'. multiply_simd_loop b a c (int (2 * j)) (int (2 * m)) = Inr a' \<and> length a' = length a
     \<and> (\<forall>k\<le>m. half_spectrum a' k
           = (if j \<le> k \<and> k < m then half_spectrum a k * half_spectrum c k else half_spectrum a k))"
proof (induction "m - j" arbitrary: a j rule: less_induct)
  case less
  have q: "0 < q" using assms(1) by (auto simp add: FLOAT_STEP_def split: if_splits)
  show ?case
  proof (cases "j < m")
    case True
    then have "q \<le> m - j" using less.prems(3) by (intro dvd_imp_le) simp_all
    then have jq: "j + q \<le> m" using True by linarith
    obtain a1 where a1: "complex_multiply b a c (int (2 * j)) = Inr a1" "length a1 = length a"
        "\<forall>k. 2 * k + 2 \<le> length a \<longrightarrow> half_spectrum a1 k
           = (if j \<le> k \<and> k < j + q then half_spectrum a k * half_spectrum c k else half_spectrum a k)"
    proof -
      have "2 * j + 2 * q \<le> length a" "2 * j + 2 * q \<le> length c"
        using jq less.prems(1) assms(2) by linarith+
      from complex_multiply_chunk [OF assms(1) this] show ?thesis using that by blast
    qed
    have "q dvd (m - j) - q" using dvd_diff_nat [of q "m - j" q] less.prems(3) by simp
    moreover have "(m - j) - q = m - (j + q)" by simp
    ultimately have d: "q dvd m - (j + q)" by (simp only:)
    obtain a' where a': "multiply_simd_loop b a1 c (int (2 * (j + q))) (int (2 * m)) = Inr a'"
        "length a' = length a1"
        "\<forall>k\<le>m. half_spectrum a' k
           = (if j + q \<le> k \<and> k < m then half_spectrum a1 k * half_spectrum c k else half_spectrum a1 k)"
    proof -
      have "m - (j + q) < m - j" using q True by linarith
      moreover have "length a1 = 2 * m + 2" using a1(2) less.prems(1) by simp
      ultimately show ?thesis using less.hyps [of "j + q" a1] jq d that by blast
    qed
    have nx: "int (2 * j) + int (FLOAT_STEP b) = int (2 * (j + q))" using assms(1) by simp
    have c: "int (2 * j) < int (2 * m)" using True by simp
    have 1: "multiply_simd_loop b a c (int (2 * j)) (int (2 * m)) = Inr a'"
      by (subst multiply_simd_loop.simps) (simp only: c if_True a1(1) bindE_Inr nx a'(1))
    have 2: "half_spectrum a' k
           = (if j \<le> k \<and> k < m then half_spectrum a k * half_spectrum c k else half_spectrum a k)"
      if "k \<le> m" for k
    proof -
      have k: "2 * k + 2 \<le> length a" using that less.prems(1) by simp
      have e1: "half_spectrum a1 k
           = (if j \<le> k \<and> k < j + q then half_spectrum a k * half_spectrum c k else half_spectrum a k)"
        using a1(3) k by blast
      have e2: "half_spectrum a' k
           = (if j + q \<le> k \<and> k < m then half_spectrum a1 k * half_spectrum c k else half_spectrum a1 k)"
        using a'(3) that by blast
      show ?thesis
      proof (cases "j + q \<le> k")
        case True
        then show ?thesis unfolding e2 e1 by simp
      next
        case False
        then show ?thesis unfolding e2 e1 using jq by simp
      qed
    qed
    have "length a' = length a" using a'(2) a1(2) by simp
    then show ?thesis using 1 2 by blast
  next
    case False
    then have c: "\<not> int (2 * j) < int (2 * m)" by simp
    have "multiply_simd_loop b a c (int (2 * j)) (int (2 * m)) = Inr a"
      by (subst multiply_simd_loop.simps) (simp only: c if_False)
    moreover have "\<forall>k\<le>m. half_spectrum a k
           = (if j \<le> k \<and> k < m then half_spectrum a k * half_spectrum c k else half_spectrum a k)"
      using False less.prems(2) by auto
    ultimately show ?thesis by blast
  qed
qed

text \<open>The product of the spectra in either build; with \<^verbatim>\<open>SIMD\<close>, the vector width has to
  divide the transform size.\<close>

lemma multiply_spectra_ok:
  assumes "SIMD b \<longrightarrow> FLOAT_STEP b div 2 dvd m" "length a = 2 * m + 2" "length c = 2 * m + 2"
  shows "\<exists>a'. multiply_spectra b a c (int (2 * m)) = Inr a' \<and> length a' = length a
     \<and> (\<forall>k\<le>m. half_spectrum a' k = half_spectrum a k * half_spectrum c k)"
proof (cases "SIMD b")
  case False
  then show ?thesis
    using multiply_na_loop_spectrum [OF assms(2,3), of 0]
    by (auto simp add: multiply_spectra_def)
next
  case True
  define q where "q = FLOAT_STEP b div 2"
  have fs: "FLOAT_STEP b = 2 * q" by (simp add: q_def FLOAT_STEP_def)
  have d: "q dvd m - 0" using True assms(1) by (simp add: q_def)
  obtain a1 where a1: "multiply_simd_loop b a c (int (2 * 0)) (int (2 * m)) = Inr a1"
      "length a1 = length a"
      "\<forall>k\<le>m. half_spectrum a1 k
           = (if 0 \<le> k \<and> k < m then half_spectrum a k * half_spectrum c k else half_spectrum a k)"
    using multiply_simd_loop_spectrum [OF fs assms(3,2) _ d] by auto
  obtain a' where a': "multiply_na_loop a1 c (int (2 * m)) (int (2 * m)) = Inr a'"
      "length a' = length a1"
      "\<forall>k. half_spectrum a' k
           = (if m \<le> k \<and> k \<le> m then half_spectrum a1 k * half_spectrum c k else half_spectrum a1 k)"
    using multiply_na_loop_spectrum [of a1 m c m] a1(2) assms(2,3) by auto
  have 1: "multiply_spectra b a c (int (2 * m)) = Inr a'"
    using True a1(1) a'(1) by (simp add: multiply_spectra_def)
  have 2: "half_spectrum a' k = half_spectrum a k * half_spectrum c k" if "k \<le> m" for k
    using a'(3) a1(3) that by (cases "k = m") auto
  show ?thesis using 1 2 a'(2) a1(2) by auto
qed

lemma full_spectrum_product:
  assumes "0 < m" "k < 2 * m"
    and "\<forall>k\<le>m. half_spectrum P k = dft_coeff (2 * m) A k * dft_coeff (2 * m) C k"
  shows "full_spectrum (2 * m) P k = dft_coeff (2 * m) A k * dft_coeff (2 * m) C k"
proof (cases "k \<le> m")
  case True
  then show ?thesis using assms(3) by (simp add: full_spectrum_def)
next
  case False
  then have "2 * m - k \<le> m" by simp
  then have "half_spectrum P (2 * m - k)
      = dft_coeff (2 * m) A (2 * m - k) * dft_coeff (2 * m) C (2 * m - k)"
    using assms(3) by blast
  also have "\<dots> = cnj (dft_coeff (2 * m) A k) * cnj (dft_coeff (2 * m) C k)"
    using assms(1,2) by (simp add: dft_coeff_hermitian)
  finally show ?thesis using False by (simp add: full_spectrum_def)
qed

lemma idft_sample_product:
  assumes "0 < m"
    and "\<forall>k\<le>m. half_spectrum P k = dft_coeff (2 * m) A k * dft_coeff (2 * m) C k"
  shows "idft_sample (2 * m) P n = real (2 * m) * circular_convolution (2 * m) A C n"
proof -
  have "(\<Sum>k = 0..<2 * m. full_spectrum (2 * m) P k * cis (2 * pi * real k * real n / real (2 * m)))
      = (\<Sum>k = 0..<2 * m. dft_coeff (2 * m) A k * dft_coeff (2 * m) C k
            * cis (2 * pi * real k * real n / real (2 * m)))"
    using full_spectrum_product [OF assms(1) _ assms(2)] by (intro sum.cong refl) simp
  also have "\<dots> = of_nat (2 * m) * (\<Sum>a = 0..<2 * m. \<Sum>c = 0..<2 * m.
           if int (2 * m) dvd int n - int a - int c then of_real (A ! a * C ! c) else 0)"
    using assms(1) by (intro dft_product_sum) simp
  also have "\<dots> = of_real (real (2 * m) * circular_convolution (2 * m) A C n)"
    unfolding circular_convolution_def of_real_mult of_real_sum
    by (simp add: if_distrib [of of_real] cong: if_cong)
  finally show ?thesis
    unfolding idft_sample_def by (simp only: Re_complex_of_real)
qed

text \<open>One block through the transforms: forward, times the kernel's spectrum, backward.\<close>

lemma block_transform:
  assumes "SIMD b \<longrightarrow> FLOAT_STEP b div 2 dvd m" "0 < m" "length A = 2 * m + 2"
    "length C = 2 * m + 2"
    and "fftf_forward (int (2 * m)) C = Inr H"
  shows "\<exists>F P Y. fftf_forward (int (2 * m)) A = Inr F
     \<and> multiply_spectra b F H (int (2 * m)) = Inr P
     \<and> fftf_backward (int (2 * m)) P = Inr Y
     \<and> length Y = 2 * m + 2
     \<and> (\<forall>n<2 * m. Y ! n = real (2 * m) * circular_convolution (2 * m) A C n)"
proof -
  obtain F where F: "fftf_forward (int (2 * m)) A = Inr F"
    using assms(2,3) fftf_forward_ok [of "int (2 * m)" A] by auto
  have lF: "length F = 2 * m + 2" using length_fftf_forward [OF F] assms(3) by simp
  have lH: "length H = 2 * m + 2" using length_fftf_forward [OF assms(5)] assms(4) by simp
  obtain P where P: "multiply_spectra b F H (int (2 * m)) = Inr P" "length P = length F"
      "\<forall>k\<le>m. half_spectrum P k = half_spectrum F k * half_spectrum H k"
    using multiply_spectra_ok [OF assms(1) lF lH] by blast
  have hs: "\<forall>k\<le>m. half_spectrum P k = dft_coeff (2 * m) A k * dft_coeff (2 * m) C k"
  proof (intro allI impI)
    fix k assume k: "k \<le> m"
    have "half_spectrum F k = dft_coeff (2 * m) A k"
      using half_spectrum_forward [OF F, of k] k by simp
    moreover have "half_spectrum H k = dft_coeff (2 * m) C k"
      using half_spectrum_forward [OF assms(5), of k] k by simp
    ultimately show "half_spectrum P k = dft_coeff (2 * m) A k * dft_coeff (2 * m) C k"
      using P(3) k by simp
  qed
  let ?Y = "map (idft_sample (2 * m) P) [0..<2 * m] @ drop (2 * m) P"
  have Y: "fftf_backward (int (2 * m)) P = Inr ?Y"
    using assms(2) P(2) lF by (simp add: fftf_backward_def)
  have lY: "length ?Y = 2 * m + 2" using P(2) lF by simp
  have "?Y ! n = real (2 * m) * circular_convolution (2 * m) A C n" if "n < 2 * m" for n
    using that idft_sample_product [OF assms(2) hs, of n] by (simp add: nth_append)
  then show ?thesis using F P(1) Y lY by blast
qed

subsection \<open>Circular and linear convolution\<close>

text \<open>Behind the first M - 1 samples the circular convolution with a kernel of M samples,
  padded with zeros, is a linear one.\<close>

lemma circular_convolution_linear:
  assumes "0 < M" "M \<le> L" "M - 1 \<le> n" "n < L" "\<forall>c. M \<le> c \<and> c < L \<longrightarrow> C ! c = 0"
  shows "circular_convolution L A C n = (\<Sum>c = 0..<M. C ! c * A ! (n - c))"
proof -
  have inner: "(\<Sum>a = 0..<L. if int L dvd int n - int a - int c then A ! a * C ! c else 0)
      = (if c < M then C ! c * A ! (n - c) else 0)" if "c < L" for c
  proof (cases "c < M")
    case True
    then have cn: "c \<le> n" using assms(3) by simp
    have "(int L dvd int n - int a - int c) = (a = n - c)" if "a < L" for a
    proof
      assume d: "int L dvd int n - int a - int c"
      have "\<bar>int n - int a - int c\<bar> < int L" using that cn assms(4) by simp
      then have "int n - int a - int c = 0"
        using d dvd_imp_le_int [of "int n - int a - int c" "int L"] by auto
      then show "a = n - c" by simp
    next
      assume "a = n - c"
      then show "int L dvd int n - int a - int c" using cn by simp
    qed
    then have "(\<Sum>a = 0..<L. if int L dvd int n - int a - int c then A ! a * C ! c else 0)
        = (\<Sum>a = 0..<L. if a = n - c then A ! a * C ! c else 0)"
      by (intro sum.cong refl) simp
    also have "\<dots> = A ! (n - c) * C ! c"
    proof -
      have "n - c < L" using assms(4) by simp
      then show ?thesis by (simp add: sum.delta)
    qed
    finally show ?thesis using True by simp
  next
    case False
    then have "C ! c = 0" using assms(5) that by simp
    then show ?thesis using False by (simp cong: if_cong)
  qed
  have "circular_convolution L A C n
      = (\<Sum>c = 0..<L. \<Sum>a = 0..<L. if int L dvd int n - int a - int c then A ! a * C ! c else 0)"
    unfolding circular_convolution_def by (rule sum.swap)
  also have "\<dots> = (\<Sum>c = 0..<L. if c < M then C ! c * A ! (n - c) else 0)"
    using inner by (intro sum.cong refl) simp
  also have "\<dots> = (\<Sum>c \<in> {0..<L} \<inter> {c. c < M}. C ! c * A ! (n - c))"
    by (simp add: sum.inter_restrict)
  also have "{0..<L} \<inter> {c. c < M} = {0..<M}" using assms(2) by auto
  finally show ?thesis .
qed

text \<open>The specification's output sample as a sum over the whole kernel, the signal
  extended by zeros.\<close>

lemma spec_out_zero_extended:
  "spec_out x h t = (\<Sum>c = 0..<length h. h ! c * zero_extended x (int t - int c))"
proof -
  let ?N = "int (length x)" and ?M = "int (length h)"
  let ?S = "{c. int t - ?N + 1 \<le> int c \<and> c \<le> t}"
  have "(\<Sum>c = 0..<length h. h ! c * zero_extended x (int t - int c))
      = (\<Sum>c = 0..<length h. if c \<in> ?S then h ! c * x ! (t - c) else 0)"
  proof (intro sum.cong refl)
    fix c
    show "h ! c * zero_extended x (int t - int c) = (if c \<in> ?S then h ! c * x ! (t - c) else 0)"
    proof (cases "c \<in> ?S")
      case True
      then have "nat (int t - int c) = t - c" by simp
      then show ?thesis using True by (simp add: zero_extended_def)
    next
      case False
      then show ?thesis by (auto simp add: zero_extended_def)
    qed
  qed
  also have "\<dots> = (\<Sum>c \<in> {0..<length h} \<inter> ?S. h ! c * x ! (t - c))"
    by (simp add: sum.inter_restrict)
  also have "\<dots> = (\<Sum>m = max 0 (int t - ?N + 1)..min (int t) (?M - 1). h ! nat m * x ! nat (int t - m))"
    by (rule sum.reindex_bij_witness [where i = nat and j = int]) (auto simp: nat_diff_distrib)
  finally show ?thesis by (simp add: spec_out_def)
qed

subsection \<open>Blocks of the overlap-save convolver\<close>

lemma zero_extended_inside: "k < length x \<Longrightarrow> j = int k \<Longrightarrow> zero_extended x j = x ! k"
  by (simp add: zero_extended_def)

lemma zero_extended_outside: "j < 0 \<or> int (length x) \<le> j \<Longrightarrow> zero_extended x j = 0"
  by (auto simp add: zero_extended_def)

text \<open>The input of block i: the L cells of the zero-extended signal from i - (M - 1) on.\<close>

lemma fill_block:
  fixes N M m i :: nat
  defines "st \<equiv> 2 * m + 1 - M"
  assumes "length bp = 2 * m + 2" "0 < M" "M \<le> m" "length x = N" "i < N + M - 1"
    "i = 0 \<or> st \<le> i" "st \<le> N"
  shows "\<exists>bp1.
     (if i > 0 then
        (if int i + int st \<le> int N then memcpy bp 0 x (int i - (int M - 1)) (int (2 * m))
         else (let cl = int N - int i + int M - 1
               in bindE (memcpy bp 0 x (int i - (int M - 1)) cl) (\<lambda>bp'.
                  memsetf bp' cl 0 (int (2 * m) - cl))))
      else bindE (memsetf bp 0 0 (int M - 1)) (\<lambda>bp'. memcpy bp' (int M - 1) x 0 (int st)))
       = Inr bp1
     \<and> length bp1 = 2 * m + 2
     \<and> (\<forall>j<2 * m. bp1 ! j = zero_extended x (int i + int j - (int M - 1)))"
proof -
  have st: "int st = int (2 * m) - (int M - 1)" "st + (M - 1) = 2 * m" "M - 1 < st"
    using assms(3,4) by (simp_all add: st_def)
  consider (first) "i = 0" | (full) "0 < i" "i + st \<le> N" | (last) "0 < i" "N < i + st"
    by linarith
  then show ?thesis
  proof cases
    case first
    obtain bp' where b1: "memsetf bp (int 0) 0 (int (M - 1)) = Inr bp'" "length bp' = length bp"
        "\<forall>j<length bp. bp' ! j = (if 0 \<le> j \<and> j < 0 + (M - 1) then 0 else bp ! j)"
    proof -
      have "0 + (M - 1) \<le> length bp" using assms(2-4) by linarith
      from memsetf_nth [OF this, of 0] show ?thesis using that by auto
    qed
    obtain bp1 where b2: "memcpy bp' (int (M - 1)) x (int 0) (int st) = Inr bp1"
        "length bp1 = length bp'"
        "\<forall>j<length bp'. bp1 ! j = (if M - 1 \<le> j \<and> j < M - 1 + st then x ! (0 + (j - (M - 1))) else bp' ! j)"
    proof -
      have "0 + st \<le> length x" "M - 1 + st \<le> length bp'"
        using assms(2,5,8) st(2) b1(2) by linarith+
      from memcpy_nth [OF this] show ?thesis using that by auto
    qed
    have e: "int M - 1 = int (M - 1)" using assms(3) by simp
    have 1: "bindE (memsetf bp 0 0 (int M - 1)) (\<lambda>bp'. memcpy bp' (int M - 1) x 0 (int st)) = Inr bp1"
      unfolding e using b1(1) b2(1) by simp
    have 3: "bp1 ! j = zero_extended x (int i + int j - (int M - 1))" if "j < 2 * m" for j
    proof (cases "j < M - 1")
      case True
      then have a: "bp1 ! j = 0" using that b1(2,3) b2(3) assms(2) by simp
      have "int i + int j - (int M - 1) < 0" using True first by linarith
      then show ?thesis unfolding a by (simp add: zero_extended_outside)
    next
      case False
      then have a: "bp1 ! j = x ! (j - (M - 1))" using that b1(2) b2(3) assms(2) st(2) by simp
      have b: "j - (M - 1) < length x" using that st(2,3) assms(5,8) by linarith
      have c: "int i + int j - (int M - 1) = int (j - (M - 1))" using False assms(3) first by linarith
      show ?thesis unfolding a by (rule zero_extended_inside [symmetric, OF b c])
    qed
    show ?thesis using 1 3 b1(2) b2(2) assms(2) first by auto
  next
    case full
    have i: "M - 1 \<le> i" using full(1) assms(7) st(3) by linarith
    have e: "int i - (int M - 1) = int (i - (M - 1))" using i assms(3) by linarith
    have src: "i - (M - 1) + 2 * m \<le> length x" using full(2) st(2) i assms(5) by linarith
    obtain bp1 where b: "memcpy bp (int 0) x (int (i - (M - 1))) (int (2 * m)) = Inr bp1"
        "length bp1 = length bp"
        "\<forall>j<length bp. bp1 ! j = (if 0 \<le> j \<and> j < 0 + 2 * m then x ! (i - (M - 1) + (j - 0)) else bp ! j)"
    proof -
      have "0 + 2 * m \<le> length bp" using assms(2) by linarith
      from memcpy_nth [OF src this] show ?thesis using that by auto
    qed
    have 3: "bp1 ! j = zero_extended x (int i + int j - (int M - 1))" if "j < 2 * m" for j
    proof -
      have a: "bp1 ! j = x ! (i - (M - 1) + j)" using that b(3) assms(2) by simp
      have b: "i - (M - 1) + j < length x" using that src assms(5) by linarith
      have c: "int i + int j - (int M - 1) = int (i - (M - 1) + j)" using i assms(3) by linarith
      show ?thesis unfolding a by (rule zero_extended_inside [symmetric, OF b c])
    qed
    have c: "int i + int st \<le> int N" using full(2) by linarith
    show ?thesis
      using full(1) c b(1) b(2) 3 assms(2) unfolding e by auto
  next
    case last
    have i: "M - 1 \<le> i" using last(1) assms(7) st(3) by linarith
    define cl where "cl = N + M - 1 - i"
    have cl: "int N - int i + int M - 1 = int cl" "0 < cl" "cl < 2 * m" "i - (M - 1) + cl = N"
      using assms(6) last(2) st(2) i assms(3) unfolding cl_def by linarith+
    have e: "int i - (int M - 1) = int (i - (M - 1))" using i assms(3) by linarith
    have e2: "int (2 * m) - int cl = int (2 * m - cl)" using cl(3) by linarith
    obtain bp' where b1: "memcpy bp (int 0) x (int (i - (M - 1))) (int cl) = Inr bp'"
        "length bp' = length bp"
        "\<forall>j<length bp. bp' ! j = (if 0 \<le> j \<and> j < 0 + cl then x ! (i - (M - 1) + (j - 0)) else bp ! j)"
    proof -
      have "i - (M - 1) + cl \<le> length x" "0 + cl \<le> length bp"
        using cl assms(2,5) by linarith+
      from memcpy_nth [OF this] show ?thesis using that by auto
    qed
    obtain bp1 where b2: "memsetf bp' (int cl) 0 (int (2 * m - cl)) = Inr bp1"
        "length bp1 = length bp'"
        "\<forall>j<length bp'. bp1 ! j = (if cl \<le> j \<and> j < cl + (2 * m - cl) then 0 else bp' ! j)"
    proof -
      have "cl + (2 * m - cl) \<le> length bp'" using cl b1(2) assms(2) by linarith
      from memsetf_nth [OF this, of 0] show ?thesis using that by auto
    qed
    have 1: "(let cl = int N - int i + int M - 1
               in bindE (memcpy bp 0 x (int i - (int M - 1)) cl) (\<lambda>bp'.
                  memsetf bp' cl 0 (int (2 * m) - cl))) = Inr bp1"
      unfolding Let_def cl(1) e e2 using b1(1) b2(1) by simp
    have 3: "bp1 ! j = zero_extended x (int i + int j - (int M - 1))" if "j < 2 * m" for j
    proof (cases "j < cl")
      case True
      then have a: "bp1 ! j = x ! (i - (M - 1) + j)" using that b1(2,3) b2(3) assms(2) by simp
      have b: "i - (M - 1) + j < length x" using True cl(4) assms(5) by linarith
      have c: "int i + int j - (int M - 1) = int (i - (M - 1) + j)" using i assms(3) by linarith
      show ?thesis unfolding a by (rule zero_extended_inside [symmetric, OF b c])
    next
      case False
      then have a: "bp1 ! j = 0" using that b1(2) b2(3) assms(2) cl(3) by simp
      have "int (length x) \<le> int i + int j - (int M - 1)" using False cl(4) i assms(3,5) by linarith
      then show ?thesis unfolding a by (simp add: zero_extended_outside)
    qed
    have c: "\<not> int i + int st \<le> int N" using last(2) by linarith
    show ?thesis
      using last(1) c 1 3 b1(2) b2(2) assms(2) by auto
  qed
qed

lemma overlap_save_block_ok:
  fixes N M m i :: nat
  defines "st \<equiv> 2 * m + 1 - M" and "T \<equiv> N + M - 1"
  assumes "SIMD b \<longrightarrow> FLOAT_STEP b div 2 dvd m" "0 < M" "M \<le> m" "length x = N"
    "length h = M" "i < T"
    "i = 0 \<or> st \<le> i" "st \<le> N" "length bp = 2 * m + 2" "length result = T"
    and "length C = 2 * m + 2" "\<forall>c<M. C ! c = h ! c" "\<forall>c. M \<le> c \<and> c < 2 * m \<longrightarrow> C ! c = 0"
    and "fftf_forward (int (2 * m)) C = Inr H"
  shows "\<exists>bp' result'.
     overlap_save_block b N M (int (2 * m)) x H (int (2 * m) - (int M - 1)) i (bp, result)
       = Inr (bp', result')
     \<and> length bp' = 2 * m + 2 \<and> length result' = T
     \<and> (\<forall>t<i. result' ! t = result ! t)
     \<and> (\<forall>t. i \<le> t \<and> t < min (i + st) T \<longrightarrow> result' ! t = spec_out x h t)"
proof -
  have m: "0 < m" using assms(4,5) by linarith
  have st: "int st = int (2 * m) - (int M - 1)" "M - 1 + st = 2 * m" "M - 1 < st"
    using assms(4,5) by (simp_all add: st_def)
  have e: "int M - 1 = int (M - 1)" using assms(4) by simp
  \<comment> \<open>the input of the block\<close>
  obtain bp1 where bp1:
    "(if i > 0 then
        (if int i + int st \<le> int N then memcpy bp 0 x (int i - (int M - 1)) (int (2 * m))
         else (let cl = int N - int i + int M - 1
               in bindE (memcpy bp 0 x (int i - (int M - 1)) cl) (\<lambda>bp'.
                  memsetf bp' cl 0 (int (2 * m) - cl))))
      else bindE (memsetf bp 0 0 (int M - 1)) (\<lambda>bp'. memcpy bp' (int M - 1) x 0 (int st)))
       = Inr bp1"
    "length bp1 = 2 * m + 2"
    "\<forall>j<2 * m. bp1 ! j = zero_extended x (int i + int j - (int M - 1))"
    using fill_block [of bp m M x N i] assms(4-6,8-11) unfolding st_def T_def by blast
  \<comment> \<open>the transforms\<close>
  obtain F P Y where tr: "fftf_forward (int (2 * m)) bp1 = Inr F"
      "multiply_spectra b F H (int (2 * m)) = Inr P"
      "fftf_backward (int (2 * m)) P = Inr Y" "length Y = 2 * m + 2"
      "\<forall>n<2 * m. Y ! n = real (2 * m) * circular_convolution (2 * m) bp1 C n"
    using block_transform [OF assms(3) m bp1(2) assms(13,16)] by blast
  \<comment> \<open>the normalisation\<close>
  obtain bp5 where bp5:
      "real_multiply_scalar Y (int (M - 1)) (int st) (1 / real_of_int (int (2 * m))) Y (int (M - 1)) = Inr bp5"
      "length bp5 = length Y"
      "\<forall>j<length Y. bp5 ! j = (if M - 1 \<le> j \<and> j < M - 1 + st
          then Y ! (M - 1 + (j - (M - 1))) * (1 / real_of_int (int (2 * m))) else Y ! j)"
  proof -
    have "M - 1 + st \<le> length Y" using st(2) tr(4) by linarith
    from real_multiply_scalar_nth [OF this this] show ?thesis using that by blast
  qed
  have v5: "bp5 ! n = circular_convolution (2 * m) bp1 C n" if "M - 1 \<le> n" "n < 2 * m" for n
  proof -
    have "bp5 ! n = Y ! n * (1 / real_of_int (int (2 * m)))"
      using that bp5(3) tr(4) st(2) by simp
    then show ?thesis using tr(5) that(2) m by simp
  qed
  \<comment> \<open>the copy to the output\<close>
  define cnt where "cnt = (if i + st < N + M then st else T - i)"
  have cnt: "cnt \<le> st" "i + cnt \<le> T" "i + cnt = min (i + st) T"
    using assms(8,4) unfolding cnt_def T_def by (auto split: if_splits)
  have cp: "(if int i + int st < int N + int M
            then memcpy result (int i) bp5 (int (M - 1)) (int st)
            else memcpy result (int i) bp5 (int (M - 1)) (int N + int M - 1 - int i))
         = memcpy result (int i) bp5 (int (M - 1)) (int cnt)"
  proof (cases "i + st < N + M")
    case True
    then have "int i + int st < int N + int M" by linarith
    then show ?thesis using True by (simp only: cnt_def if_True)
  next
    case False
    then have c: "\<not> int i + int st < int N + int M" by linarith
    have "int N + int M - 1 - int i = int (T - i)" using assms(8) unfolding T_def by linarith
    then show ?thesis using False c by (simp only: cnt_def if_False)
  qed
  obtain result' where r: "memcpy result (int i) bp5 (int (M - 1)) (int cnt) = Inr result'"
      "length result' = length result"
      "\<forall>t<length result. result' ! t = (if i \<le> t \<and> t < i + cnt then bp5 ! (M - 1 + (t - i)) else result ! t)"
  proof -
    have "M - 1 + cnt \<le> length bp5" "i + cnt \<le> length result"
      using cnt st(2) bp5(2) tr(4) assms(12) by linarith+
    from memcpy_nth [OF this] show ?thesis using that by blast
  qed
  have old: "result' ! t = result ! t" if "t < i" for t
    using that r(3) assms(8,12) by simp
  have new: "result' ! t = spec_out x h t" if "i \<le> t" "t < min (i + st) T" for t
  proof -
    let ?n = "M - 1 + (t - i)"
    have t: "t < i + cnt" "t < length result" using that cnt(3) assms(12) by simp_all
    have n: "M - 1 \<le> ?n" "?n < 2 * m" using t cnt(1) st(2) that(1) by linarith+
    have "result' ! t = bp5 ! ?n" using r(3) t that(1) by simp
    also have "\<dots> = circular_convolution (2 * m) bp1 C ?n" using n by (rule v5)
    also have "\<dots> = (\<Sum>c = 0..<M. C ! c * bp1 ! (?n - c))"
      using assms(4,5,15) n by (intro circular_convolution_linear) simp_all
    also have "\<dots> = (\<Sum>c = 0..<M. h ! c * zero_extended x (int t - int c))"
    proof (intro sum.cong refl)
      fix c assume "c \<in> {0..<M}"
      then have c: "c < M" by simp
      have "?n - c < 2 * m" using n by simp
      then have "bp1 ! (?n - c) = zero_extended x (int i + int (?n - c) - (int M - 1))"
        using bp1(3) by blast
      moreover have "int i + int (?n - c) - (int M - 1) = int t - int c"
        using c that(1) by linarith
      ultimately show "C ! c * bp1 ! (?n - c) = h ! c * zero_extended x (int t - int c)"
        using assms(14) c by simp
    qed
    also have "\<dots> = spec_out x h t"
      using assms(7) by (simp add: spec_out_zero_extended)
    finally show ?thesis .
  qed
  have "overlap_save_block b N M (int (2 * m)) x H (int (2 * m) - (int M - 1)) i (bp, result)
      = Inr (bp5, result')"
    unfolding overlap_save_block_def Let_def fst_conv snd_conv
    unfolding st(1) [symmetric]
    unfolding bp1(1) [unfolded Let_def] bindE_Inr tr(1) tr(2) tr(3)
    unfolding e bp5(1) bindE_Inr cp r(1) ..
  moreover have "length bp5 = 2 * m + 2" using bp5(2) tr(4) by simp
  moreover have "length result' = T" using r(2) assms(12) by simp
  ultimately show ?thesis
    using old new by (intro exI [of _ bp5] exI [of _ result']) simp
qed

lemma overlap_save_loop_ok:
  fixes N M m :: nat
  defines "st \<equiv> 2 * m + 1 - M" and "T \<equiv> N + M - 1"
  assumes "SIMD b \<longrightarrow> FLOAT_STEP b div 2 dvd m" "0 < M" "M \<le> m" "length x = N"
    "length h = M" "st \<le> N"
    and "length C = 2 * m + 2" "\<forall>c<M. C ! c = h ! c" "\<forall>c. M \<le> c \<and> c < 2 * m \<longrightarrow> C ! c = 0"
    and "fftf_forward (int (2 * m)) C = Inr H"
  shows "i = 0 \<or> st \<le> i \<Longrightarrow> length bp = 2 * m + 2 \<Longrightarrow> length result = T \<Longrightarrow>
     \<forall>t<min i T. result ! t = spec_out x h t \<Longrightarrow>
     \<exists>bp' out.
       overlap_save_loop b N M (int (2 * m)) x H (int (2 * m) - (int M - 1)) i (bp, result)
         = Some (Inr (bp', out))
       \<and> length out = T \<and> (\<forall>t<T. out ! t = spec_out x h t)"
proof (induction "T - i" arbitrary: i bp result rule: less_induct)
  case less
  have st: "int st = int (2 * m) - (int M - 1)" "0 < st"
    using assms(4,5) by (simp_all add: st_def)
  have T: "int T = int N + int M - 1" using assms(4) by (simp add: T_def)
  show ?case
  proof (cases "i < T")
    case True
    obtain bp1 r1 where blk:
        "overlap_save_block b N M (int (2 * m)) x H (int (2 * m) - (int M - 1)) i (bp, result)
           = Inr (bp1, r1)"
        "length bp1 = 2 * m + 2" "length r1 = T" "\<forall>t<i. r1 ! t = result ! t"
        "\<forall>t. i \<le> t \<and> t < min (i + st) T \<longrightarrow> r1 ! t = spec_out x h t"
      using overlap_save_block_ok [OF assms(3-7) True [unfolded T_def]
          less.prems(1) [unfolded st_def] assms(8) [unfolded st_def] less.prems(2)
          less.prems(3) [unfolded T_def] assms(9-12)]
      unfolding st_def T_def by blast
    have inv: "\<forall>t<min (i + st) T. r1 ! t = spec_out x h t"
    proof (intro allI impI)
      fix t assume t: "t < min (i + st) T"
      show "r1 ! t = spec_out x h t"
      proof (cases "t < i")
        case True
        then have "r1 ! t = result ! t" using blk(4) by simp
        then show ?thesis using less.prems(4) True t by simp
      next
        case False
        then show ?thesis using blk(5) t by simp
      qed
    qed
    have "T - (i + st) < T - i" using True st(2) by linarith
    then obtain bp' out where rec:
        "overlap_save_loop b N M (int (2 * m)) x H (int (2 * m) - (int M - 1)) (i + st) (bp1, r1)
           = Some (Inr (bp', out))"
        "length out = T" "\<forall>t<T. out ! t = spec_out x h t"
      using less.hyps [of "i + st" bp1 r1] blk(2,3) inv by auto
    have nx: "nat (int i + (int (2 * m) - (int M - 1))) = i + st" using st(1) by linarith
    have c: "int i < int N + int M - 1" using True T by linarith
    have "overlap_save_loop b N M (int (2 * m)) x H (int (2 * m) - (int M - 1)) i (bp, result)
        = Some (Inr (bp', out))"
      by (subst overlap_save_loop.simps) (simp only: c if_True Let_def blk(1) sum.disc sum.sel nx rec(1) if_False)
    then show ?thesis using rec(2,3) by blast
  next
    case False
    then have c: "\<not> int i < int N + int M - 1" using T by linarith
    have "overlap_save_loop b N M (int (2 * m)) x H (int (2 * m) - (int M - 1)) i (bp, result)
        = Some (Inr (bp, result))"
      by (subst overlap_save_loop.simps) (simp only: c if_False)
    moreover have "\<forall>t<T. result ! t = spec_out x h t" using less.prems(4) False by simp
    ultimately show ?thesis using less.prems(3) by blast
  qed
qed

lemma os_L_half:
  assumes "os_handle_ok s"
  shows "\<exists>d. os_L s = int (2 * 2 ^ (d + 1)) \<and> os_h_length s \<le> 2 ^ (d + 1)"
proof -
  obtain d where d: "os_L s = 2 ^ (d + 2)" "os_h_length s < 2 ^ (d + 1)"
    using assms by (auto simp add: os_handle_ok_def)
  have "os_L s = int (2 * 2 ^ (d + 1))" using d(1) by simp
  moreover have "os_h_length s \<le> 2 ^ (d + 1)" using d(2) by simp
  ultimately show ?thesis by blast
qed

lemma float_step_dvd:
  assumes "int (FLOAT_STEP b) \<le> int (2 * 2 ^ (d + 1))"
  shows "FLOAT_STEP b div 2 dvd (2::nat) ^ (d + 1)"
proof (cases "AVX b")
  case True
  then have "(8::int) \<le> 2 * 2 ^ (d + 1)" using assms by (simp add: FLOAT_STEP_def)
  then have "d \<noteq> 0" by (cases d) simp_all
  then obtain d' where "d = Suc d'" by (cases d) simp_all
  then have "(2::nat) ^ (d + 1) = 4 * 2 ^ d'" by simp
  then show ?thesis using True by (simp add: FLOAT_STEP_def)
next
  case False
  then show ?thesis by (simp add: FLOAT_STEP_def)
qed

text \<open>The preparation leaves the spectrum of the zero-padded kernel in both buffers.\<close>

lemma overlap_save_prep_kernel:
  fixes M m :: nat
  assumes "os_h_length s = M" "os_L s = int (2 * m)" "0 < M" "M \<le> m" "os_reverse s = 0"
    "length (os_H s) = 2 * m + 2" "length (os_fft_boiler_plate s) = 2 * m + 2" "length h = M"
  shows "\<exists>C H.
     bindE (if os_reverse s \<noteq> 0 then rmemcpyf (os_fft_boiler_plate s) h (int (os_h_length s))
            else memcpy (os_fft_boiler_plate s) 0 h 0 (int (os_h_length s))) (\<lambda>bp1.
     bindE (memsetf bp1 (int (os_h_length s)) 0 (os_L s - int (os_h_length s))) (\<lambda>bp2.
     bindE (fftf_forward (os_L s) bp2) (\<lambda>bp3.
     bindE (memcpy (os_H s) 0 bp3 0 (os_L s + 2)) (\<lambda>H. Inr (bp3, H))))) = Inr (H, H)
     \<and> fftf_forward (int (2 * m)) C = Inr H \<and> length C = 2 * m + 2 \<and> length H = 2 * m + 2
     \<and> (\<forall>c<M. C ! c = h ! c) \<and> (\<forall>c. M \<le> c \<and> c < 2 * m \<longrightarrow> C ! c = 0)"
proof -
  let ?bp = "os_fft_boiler_plate s"
  obtain bp1 where b1: "memcpy ?bp (int 0) h (int 0) (int M) = Inr bp1" "length bp1 = length ?bp"
      "\<forall>j<length ?bp. bp1 ! j = (if 0 \<le> j \<and> j < 0 + M then h ! (0 + (j - 0)) else ?bp ! j)"
  proof -
    have "0 + M \<le> length h" "0 + M \<le> length ?bp" using assms(4,7,8) by linarith+
    from memcpy_nth [OF this] show ?thesis using that by blast
  qed
  obtain C where b2: "memsetf bp1 (int M) 0 (int (2 * m - M)) = Inr C" "length C = length bp1"
      "\<forall>j<length bp1. C ! j = (if M \<le> j \<and> j < M + (2 * m - M) then 0 else bp1 ! j)"
  proof -
    have "M + (2 * m - M) \<le> length bp1" using assms(4,7) b1(2) by linarith
    from memsetf_nth [OF this, of 0] show ?thesis using that by blast
  qed
  have lC: "length C = 2 * m + 2" using b1(2) b2(2) assms(7) by simp
  have m: "0 < m" using assms(3,4) by linarith
  obtain H where H: "fftf_forward (int (2 * m)) C = Inr H"
    using fftf_forward_ok [of "int (2 * m)" C] m lC by auto
  have lH: "length H = 2 * m + 2" using length_fftf_forward [OF H] lC by simp
  obtain H' where b4: "memcpy (os_H s) (int 0) H (int 0) (int (2 * m + 2)) = Inr H'"
      "length H' = length (os_H s)"
      "\<forall>j<length (os_H s). H' ! j = (if 0 \<le> j \<and> j < 0 + (2 * m + 2) then H ! (0 + (j - 0)) else os_H s ! j)"
  proof -
    have "0 + (2 * m + 2) \<le> length H" "0 + (2 * m + 2) \<le> length (os_H s)"
      using lH assms(6) by linarith+
    from memcpy_nth [OF this] show ?thesis using that by blast
  qed
  have "H' = H"
    using b4(2,3) lH assms(6) by (intro nth_equalityI) simp_all
  then have b4': "memcpy (os_H s) 0 H 0 (int (2 * m) + 2) = Inr H"
    using b4(1) by (simp add: algebra_simps)
  have e: "int (2 * m) - int M = int (2 * m - M)" using assms(4) by linarith
  have 1: "bindE (if os_reverse s \<noteq> 0 then rmemcpyf (os_fft_boiler_plate s) h (int (os_h_length s))
            else memcpy (os_fft_boiler_plate s) 0 h 0 (int (os_h_length s))) (\<lambda>bp1.
     bindE (memsetf bp1 (int (os_h_length s)) 0 (os_L s - int (os_h_length s))) (\<lambda>bp2.
     bindE (fftf_forward (os_L s) bp2) (\<lambda>bp3.
     bindE (memcpy (os_H s) 0 bp3 0 (os_L s + 2)) (\<lambda>H. Inr (bp3, H))))) = Inr (H, H)"
    unfolding assms(1,2,5) e using b1(1) b2(1) H b4' by simp
  have 2: "C ! c = h ! c" if "c < M" for c
    using that b1(2,3) b2(3) assms(4,7) by simp
  have 3: "C ! c = 0" if "M \<le> c" "c < 2 * m" for c
    using that b1(2) b2(3) assms(7) by simp
  show ?thesis using 1 2 3 H lC lH by blast
qed

text \<open>Where the first block stays inside the signal, the overlap-save convolver returns
  the direct convolution.\<close>

lemma convolve_overlap_save_correct:
  assumes "convolve_overlap_save_initialize junk1 junk2 xLength hLength = Inr s"
    and "length x = xLength" "length h = hLength" "length result = xLength + hLength - 1"
    and "SIMD b \<longrightarrow> int (FLOAT_STEP b) \<le> os_L s"
      "os_L s - (int hLength - 1) \<le> int xLength"
  shows "\<exists>s'. convolve_overlap_save b s x h result = Some (Inr (s', spec_convolution x h))"
proof -
  have s: "os_handle_ok s" "os_x_length s = xLength" "os_h_length s = hLength" "os_reverse s = 0"
    using os_handle_ok_initialize [OF assms(1)] by simp_all
  have M: "0 < hLength" using s(1,3) by (simp add: os_handle_ok_def)
  obtain d where d: "os_L s = int (2 * 2 ^ (d + 1))" "hLength \<le> 2 ^ (d + 1)"
    using os_L_half [OF s(1)] s(3) by auto
  define m :: nat where "m = 2 ^ (d + 1)"
  have m: "os_L s = int (2 * m)" "hLength \<le> m" using d by (simp_all add: m_def)
  have simd: "SIMD b \<longrightarrow> FLOAT_STEP b div 2 dvd m"
    using assms(5) float_step_dvd [of b d] d(1) by (simp add: m_def)
  have lens: "length (os_H s) = 2 * m + 2" "length (os_fft_boiler_plate s) = 2 * m + 2"
    using s(1) m(1) by (simp_all add: os_handle_ok_def)
  obtain C H where prep:
     "bindE (if os_reverse s \<noteq> 0 then rmemcpyf (os_fft_boiler_plate s) h (int (os_h_length s))
            else memcpy (os_fft_boiler_plate s) 0 h 0 (int (os_h_length s))) (\<lambda>bp1.
     bindE (memsetf bp1 (int (os_h_length s)) 0 (os_L s - int (os_h_length s))) (\<lambda>bp2.
     bindE (fftf_forward (os_L s) bp2) (\<lambda>bp3.
     bindE (memcpy (os_H s) 0 bp3 0 (os_L s + 2)) (\<lambda>H. Inr (bp3, H))))) = Inr (H, H)"
     and k: "fftf_forward (int (2 * m)) C = Inr H" "length C = 2 * m + 2" "length H = 2 * m + 2"
       "\<forall>c<hLength. C ! c = h ! c" "\<forall>c. hLength \<le> c \<and> c < 2 * m \<longrightarrow> C ! c = 0"
    using overlap_save_prep_kernel [OF s(3) m(1) M m(2) s(4) lens assms(3)] by blast
  have st: "2 * m + 1 - hLength \<le> xLength" using assms(6) m M by linarith
  obtain bp' out where run:
      "overlap_save_loop b xLength hLength (int (2 * m)) x H (int (2 * m) - (int hLength - 1)) 0 (H, result)
         = Some (Inr (bp', out))"
      "length out = xLength + hLength - 1" "\<forall>t<xLength + hLength - 1. out ! t = spec_out x h t"
    using overlap_save_loop_ok [OF simd M m(2) assms(2,3) st k(2,4,5,1), of 0 H result]
      k(3) assms(4) by auto
  have out: "out = spec_convolution x h"
    using run(2,3) assms(2,3) by (intro nth_equalityI) (simp_all add: spec_convolution_def)
  show ?thesis
    unfolding convolve_overlap_save_def Let_def prep
    using run(1) out by (simp add: s m(1))
qed

text \<open>
  Claim C7 where it fails, and where it holds. For a handle that
  \<^verbatim>\<open>convolve_overlap_save_initialize\<close> returned (so \<open>0 < hLength < xLength / 2\<close>) and arrays
  of the recorded lengths: when \<open>step = L - (hLength - 1)\<close> exceeds \<open>xLength\<close>, the first
  block copies \<open>step\<close> floats from \<open>x\<close> and reads behind its end. When \<open>step\<close> is at most
  \<open>xLength\<close>, no read or write of the call leaves its array (with an output buffer of \<open>xLength + hLength - 1\<close>
  floats and, in a build with \<^verbatim>\<open>SIMD\<close>, a vector width of at most \<open>L\<close> floats).
\<close>

theorem overlap_save_first_block_out_of_bounds:
  "convolve_overlap_save_initialize junk1 junk2 xLength hLength = Inr s \<Longrightarrow>
   length x = xLength \<Longrightarrow> length h = hLength \<Longrightarrow>
   (int xLength < os_L s - (int hLength - 1) \<longrightarrow>
      convolve_overlap_save b s x h result = Some (Inl OutOfBounds))
   \<and> (os_L s - (int hLength - 1) \<le> int xLength \<longrightarrow>
      (SIMD b \<longrightarrow> int (FLOAT_STEP b) \<le> os_L s) \<longrightarrow>
      length result = xLength + hLength - 1 \<longrightarrow>
      convolve_overlap_save b s x h result \<noteq> Some (Inl OutOfBounds))"
proof -
  assume a: "convolve_overlap_save_initialize junk1 junk2 xLength hLength = Inr s"
    "length x = xLength" "length h = hLength"
  have s: "os_handle_ok s" "os_x_length s = xLength" "os_h_length s = hLength"
      "hLength < xLength div 2"
    using os_handle_ok_initialize [OF a(1)] by simp_all
  have pos: "0 < os_x_length s" using s by linarith
  have 1: "convolve_overlap_save b s x h result = Some (Inl OutOfBounds)"
    if "int xLength < os_L s - (int hLength - 1)"
    using s a that pos by (intro overlap_save_first_block_fails) simp_all
  have 2: "convolve_overlap_save b s x h result \<noteq> Some (Inl OutOfBounds)"
    if "os_L s - (int hLength - 1) \<le> int xLength" "SIMD b \<longrightarrow> int (FLOAT_STEP b) \<le> os_L s"
      "length result = xLength + hLength - 1"
    using convolve_overlap_save_correct [OF a that(3,2,1)] by auto
  show ?thesis using 1 2 by blast
qed

lemma shift_loop_2: "shift_loop 2 2 = Some 3"
  by (simp add: shift_loop.simps)

lemma mallocf_junk0: "mallocf junk0 n = replicate (nat n) 0"
  by (simp add: mallocf_def junk0_def [abs_def] map_replicate_const)

lemma memsetf_zero: "memsetf (replicate 10 0) 2 0 6 = Inr (replicate 10 0)"
  by (simp add: memsetf_def write_range_def replicate_add [symmetric])

lemma overlap_save_initialize_6_2:
  "convolve_overlap_save_initialize junk0 junk0 6 2
     = Inr \<lparr>os_x_length = 6, os_h_length = 2, os_reverse = 0, os_L = 8,
            os_H = replicate 10 0, os_fft_boiler_plate = replicate 10 0\<rparr>"
  by (simp add: convolve_overlap_save_initialize_def assertE_def shift_loop_2 Let_def
      mallocf_junk0 memsetf_zero to_int_def)

lemma overlap_save_initialize_8_2:
  "convolve_overlap_save_initialize junk0 junk0 8 2
     = Inr \<lparr>os_x_length = 8, os_h_length = 2, os_reverse = 0, os_L = 8,
            os_H = replicate 10 0, os_fft_boiler_plate = replicate 10 0\<rparr>"
  by (simp add: convolve_overlap_save_initialize_def assertE_def shift_loop_2 Let_def
      mallocf_junk0 memsetf_zero to_int_def)

theorem overlap_save_first_block_out_of_bounds_witness:
  "convolve_overlap_save avx_build
     \<lparr>os_x_length = 6, os_h_length = 2, os_reverse = 0, os_L = 8,
      os_H = replicate 10 0, os_fft_boiler_plate = replicate 10 0\<rparr>
     [1, 2, 3, 4, 5, 6] [1, 1] (replicate 7 0) = Some (Inl OutOfBounds)
   \<and> convolve_overlap_save plain_build
     \<lparr>os_x_length = 8, os_h_length = 2, os_reverse = 0, os_L = 8,
      os_H = replicate 10 0, os_fft_boiler_plate = replicate 10 0\<rparr>
     [1, 2, 3, 4, 5, 6, 7, 8] [1, 1] (replicate 9 0) \<noteq> Some (Inl OutOfBounds)
   \<and> convolve_overlap_save avx_build
     \<lparr>os_x_length = 8, os_h_length = 2, os_reverse = 0, os_L = 8,
      os_H = replicate 10 0, os_fft_boiler_plate = replicate 10 0\<rparr>
     [1, 2, 3, 4, 5, 6, 7, 8] [1, 1] (replicate 9 0) \<noteq> Some (Inl OutOfBounds)"
  using overlap_save_first_block_out_of_bounds [OF overlap_save_initialize_6_2,
      of "[1, 2, 3, 4, 5, 6]" "[1, 1]" avx_build "replicate 7 0"]
    overlap_save_first_block_out_of_bounds [OF overlap_save_initialize_8_2,
      of "[1, 2, 3, 4, 5, 6, 7, 8]" "[1, 1]" plain_build "replicate 9 0"]
    overlap_save_first_block_out_of_bounds [OF overlap_save_initialize_8_2,
      of "[1, 2, 3, 4, 5, 6, 7, 8]" "[1, 1]" avx_build "replicate 9 0"]
  by (simp add: plain_build_def avx_build_def FLOAT_STEP_def)

theorem reverse_flag_witness:
  "map_sum (\<lambda>e. e) snd
     (convolve_fft plain_build
        \<lparr>fft_M = 2, fft_x_length = 1, fft_h_length = 2, fft_reverse = 1,
         fft_inputs0 = [0, 0, 0, 0], fft_inputs1 = [0, 0, 0, 0]\<rparr> [3] [1, 2] [0, 0])
    = Inr [6, 3]
   \<and> map_sum (\<lambda>e. e) snd
     (convolve_fft plain_build
        \<lparr>fft_M = 2, fft_x_length = 1, fft_h_length = 2, fft_reverse = 0,
         fft_inputs0 = [0, 0, 0, 0], fft_inputs1 = [0, 0, 0, 0]\<rparr> [3] [2, 1] [0, 0])
    = Inr [6, 3]
   \<and> map_option (map_sum (\<lambda>e. e) snd)
     (convolve_overlap_save plain_build
        \<lparr>os_x_length = 8, os_h_length = 2, os_reverse = 1, os_L = 8,
         os_H = replicate 10 0, os_fft_boiler_plate = replicate 10 0\<rparr>
        [1, 2, 3, 4, 5, 6, 7, 8] [1, 2] (replicate 9 0))
    = Some (Inr [2, 5, 8, 11, 14, 17, 20, 23, 8])
   \<and> map_option (map_sum (\<lambda>e. e) snd)
     (convolve_overlap_save plain_build
        \<lparr>os_x_length = 8, os_h_length = 2, os_reverse = 0, os_L = 8,
         os_H = replicate 10 0, os_fft_boiler_plate = replicate 10 0\<rparr>
        [1, 2, 3, 4, 5, 6, 7, 8] [2, 1] (replicate 9 0))
    = Some (Inr [2, 5, 8, 11, 14, 17, 20, 23, 8])"
proof -
  let ?s = "\<lparr>os_x_length = 8, os_h_length = 2, os_reverse = 0, os_L = 8,
         os_H = replicate 10 0, os_fft_boiler_plate = replicate 10 (0::real)\<rparr>"
  have f: "convolve_fft plain_build
        \<lparr>fft_M = 2, fft_x_length = 1, fft_h_length = 2, fft_reverse = 0,
         fft_inputs0 = [0, 0, 0, 0], fft_inputs1 = [0, 0, 0, 0]\<rparr> [3] [2, 1] [0, 0]
      = Inr (\<lparr>fft_M = 2, fft_x_length = 1, fft_h_length = 2, fft_reverse = 0,
             fft_inputs0 = [12, 6, 3, 0], fft_inputs1 = [3, 0, 1, 0]\<rparr>, [6, 3])"
    by (simp add: convolve_fft_def memcpy_def read_range_def write_range_def fwd2 bwd2 mul2
        real_multiply_scalar_def)
  have "\<exists>s'. convolve_overlap_save plain_build ?s [1, 2, 3, 4, 5, 6, 7, 8] [2, 1] (replicate 9 0)
      = Some (Inr (s', spec_convolution [1, 2, 3, 4, 5, 6, 7, 8] [2, 1]))"
    by (rule convolve_overlap_save_correct [OF overlap_save_initialize_8_2])
       (simp_all add: plain_build_def)
  moreover have "spec_convolution [1, 2, 3, 4, 5, 6, 7, 8] [2, 1]
      = [2, 5, 8, 11, 14, 17, 20, 23, 8]"
    by (simp add: spec_convolution_def spec_out_def upt_rec sum_int_Icc_rec)
  ultimately have o: "map_option (map_sum (\<lambda>e. e) snd)
      (convolve_overlap_save plain_build ?s [1, 2, 3, 4, 5, 6, 7, 8] [2, 1] (replicate 9 0))
      = Some (Inr [2, 5, 8, 11, 14, 17, 20, 23, 8])"
    by auto
  show ?thesis
    using f o reverse_flag [of 1 "[1, 2]"
        "\<lparr>fft_M = 2, fft_x_length = 1, fft_h_length = 2, fft_reverse = 0,
         fft_inputs0 = [0, 0, 0, 0], fft_inputs1 = [0, 0, 0, 0]\<rparr>"
        ?s plain_build "[3]" "[0, 0]" "[1, 2, 3, 4, 5, 6, 7, 8]" "replicate 9 0"]
    by simp
qed

text \<open>The first block leaves the signal also for lengths that \<^verbatim>\<open>convolve_initialize\<close> selects
  for the overlap-save convolver: for \<open>xLength = 300\<close> and \<open>hLength = 128\<close> the transform size
  is \<open>512\<close> and \<open>step = 385\<close>.\<close>

lemma overlap_save_out_of_bounds_selected:
  "(case convolve_initialize b junk1 junk2 300 128 of
      Inl e \<Rightarrow> None
    | Inr hdl \<Rightarrow> convolve b hdl (replicate 300 1) (replicate 128 1) (replicate 427 0))
   = Some (Inl OutOfBounds)"
proof -
  obtain s where i: "convolve_overlap_save_initialize junk1 junk2 300 128 = Inr s"
    using convolve_overlap_save_initialize_ok [of 128 300 junk1 junk2] by auto
  have s: "os_handle_ok s" "os_x_length s = 300" "os_h_length s = 128"
    using convolve_overlap_save_initialize_Inr [OF i] by simp_all
  obtain d where d: "os_L s = 2 ^ (d + 2)" "2 ^ d \<le> os_h_length s" "os_h_length s < 2 ^ (d + 1)"
    using s(1) by (auto simp add: os_handle_ok_def)
  have "d = 7"
  proof -
    have "(2::nat) ^ d < 2 ^ 8" using d(2) s(3) by simp
    then have "d < 8" by (intro power_less_imp_less_exp [of "2::nat" d 8]) simp_all
    moreover have "(2::nat) ^ 7 < 2 ^ (d + 1)" using d(3) s(3) by simp
    then have "7 < d + 1" by (intro power_less_imp_less_exp [of "2::nat" 7 "d + 1"]) simp_all
    ultimately show ?thesis by simp
  qed
  then have L: "os_L s = 512" using d(1) by simp
  have "convolve_overlap_save b s (replicate 300 1) (replicate 128 1) (replicate 427 0)
      = Some (Inl OutOfBounds)"
    using s by (intro overlap_save_first_block_fails) (simp_all add: L)
  moreover have "convolve_initialize b junk1 junk2 300 128
      = Inr \<lparr>algorithm = kConvolutionAlgorithmOverlapSave, x_length = 300,
              h_length = 128, handle = os s\<rparr>"
    using convolve_initialize_os [of 128 300 b junk1 junk2] select_test [of 128 300] i by simp
  ultimately show ?thesis by (simp add: convolve_def)
qed

text \<open>
  Claim C2 at a failing input. With \<open>xLength = 6\<close> and \<open>hLength = 2\<close> the initialiser
  returns a handle with \<open>L = 8\<close>, so \<open>step = 7\<close>; the execute call does not return the
  7 samples \<open>[1, 3, 5, 7, 9, 11, 6]\<close> of the direct convolution, it reads behind the end of
  \<open>x\<close> in its first block.
\<close>

theorem overlap_save_differs_from_direct:
  "(case convolve_overlap_save_initialize junk0 junk0 6 2 of
      Inl e \<Rightarrow> None
    | Inr s \<Rightarrow> convolve_overlap_save plain_build s [1, 2, 3, 4, 5, 6] [1, 1] (replicate 7 0))
     = Some (Inl OutOfBounds)
   \<and> convolve_simd plain_build 1 [1, 2, 3, 4, 5, 6] 6 [1, 1] 2 (replicate 7 0)
     = Inr [1, 3, 5, 7, 9, 11, 6]"
proof -
  let ?s = "\<lparr>os_x_length = 6, os_h_length = 2, os_reverse = 0, os_L = 8,
      os_H = replicate 10 0, os_fft_boiler_plate = replicate 10 0\<rparr>"
  have ok: "os_handle_ok ?s" by (auto simp add: os_handle_ok_def intro!: exI [of _ 1])
  have "convolve_overlap_save plain_build ?s [1, 2, 3, 4, 5, 6] [1, 1] (replicate 7 0)
      = Some (Inl OutOfBounds)"
    using ok by (rule overlap_save_first_block_fails) simp_all
  moreover have "convolve_simd plain_build 1 [1, 2, 3, 4, 5, 6] 6 [1, 1] 2 (replicate 7 0)
      = Inr [1, 3, 5, 7, 9, 11, 6]"
    using convolve_simd_eq [of "[1, 2, 3, 4, 5, 6]" 6 "[1, 1]" 2 "replicate 7 0" plain_build 1]
    by (simp add: spec_out_def upt_rec sum_int_Icc_rec)
  ultimately show ?thesis by (simp add: overlap_save_initialize_6_2)
qed

subsection \<open>The single-shot transform convolver on a fresh handle\<close>

lemma float_step_dvd_pow:
  assumes "int (FLOAT_STEP b) \<le> int (2 * 2 ^ e)"
  shows "FLOAT_STEP b div 2 dvd (2::nat) ^ e"
proof (cases "AVX b")
  case True
  then have le: "(8::int) \<le> 2 * 2 ^ e" using assms by (simp add: FLOAT_STEP_def)
  have "e \<noteq> 0" using le by (cases e) simp_all
  moreover have "e \<noteq> 1" using le by (cases "e = 1") simp_all
  ultimately obtain e' where "e = Suc (Suc e')" by (cases e; cases "e - 1") auto
  then have "(2::nat) ^ e = 4 * 2 ^ e'" by simp
  then show ?thesis using True by (simp add: FLOAT_STEP_def)
next
  case False
  then have le: "(4::int) \<le> 2 * 2 ^ e" using assms by (simp add: FLOAT_STEP_def)
  have "e \<noteq> 0" using le by (cases e) simp_all
  then obtain e' where "e = Suc e'" by (cases e) auto
  then show ?thesis using False by (simp add: FLOAT_STEP_def)
qed

text \<open>Two buffers padded with zeros so that their convolution fits into the transform: the
  circular convolution is the linear one at every sample.\<close>

lemma circular_convolution_padded:
  assumes "0 < N" "0 < M" "N + M - 1 \<le> L" "n < L"
    and "\<forall>a. N \<le> a \<and> a < L \<longrightarrow> A ! a = 0" "\<forall>c. M \<le> c \<and> c < L \<longrightarrow> C ! c = 0"
  shows "circular_convolution L A C n
       = (\<Sum>c = 0..<M. C ! c * (if c \<le> n \<and> n - c < N then A ! (n - c) else 0))"
proof -
  have inner: "(\<Sum>a = 0..<L. if int L dvd int n - int a - int c then A ! a * C ! c else 0)
      = (if c < M then C ! c * (if c \<le> n \<and> n - c < N then A ! (n - c) else 0) else 0)"
    if "c < L" for c
  proof (cases "c < M")
    case True
    have tm: "(if int L dvd int n - int a - int c then A ! a * C ! c else 0)
        = (if a = n - c \<and> c \<le> n \<and> n - c < N then A ! a * C ! c else 0)" if "a < L" for a
    proof (cases "a < N")
      case a: True
      have "\<bar>int n - int a - int c\<bar> < int L" using a True assms(3,4) by linarith
      then have "(int L dvd int n - int a - int c) = (int n - int a - int c = 0)"
        using dvd_imp_le_int [of "int n - int a - int c" "int L"] by auto
      also have "\<dots> = (a = n - c \<and> c \<le> n \<and> n - c < N)" using a by auto
      finally show ?thesis by simp
    next
      case False
      then have "A ! a = 0" using assms(5) that by simp
      then show ?thesis using False by auto
    qed
    have "(\<Sum>a = 0..<L. if int L dvd int n - int a - int c then A ! a * C ! c else 0)
        = (\<Sum>a = 0..<L. if a = n - c then (if c \<le> n \<and> n - c < N then A ! a * C ! c else 0) else 0)"
      using tm by (intro sum.cong refl) auto
    also have "\<dots> = (if c \<le> n \<and> n - c < N then A ! (n - c) * C ! c else 0)"
    proof -
      have "n - c < L" using assms(4) by simp
      then show ?thesis by (simp add: sum.delta)
    qed
    finally show ?thesis using True by simp
  next
    case False
    then have "C ! c = 0" using assms(6) that by simp
    then show ?thesis using False by (simp cong: if_cong)
  qed
  have ml: "M \<le> L" using assms(1,3) by linarith
  have "circular_convolution L A C n
      = (\<Sum>c = 0..<L. \<Sum>a = 0..<L. if int L dvd int n - int a - int c then A ! a * C ! c else 0)"
    unfolding circular_convolution_def by (rule sum.swap)
  also have "\<dots> = (\<Sum>c = 0..<L. if c < M then C ! c * (if c \<le> n \<and> n - c < N then A ! (n - c) else 0) else 0)"
    using inner by (intro sum.cong refl) simp
  also have "\<dots> = (\<Sum>c \<in> {0..<L} \<inter> {c. c < M}. C ! c * (if c \<le> n \<and> n - c < N then A ! (n - c) else 0))"
    by (simp add: sum.inter_restrict)
  also have "{0..<L} \<inter> {c. c < M} = {0..<M}" using ml by auto
  finally show ?thesis .
qed

lemma convolve_fft_initialize_handle:
  assumes "convolve_fft_initialize junk1 junk2 xLength hLength = Inr f"
  shows "0 < xLength \<and> 0 < hLength \<and> (\<exists>k. fft_M f = 2 ^ k)
     \<and> int (xLength + hLength - 1) \<le> fft_M f
     \<and> fft_x_length f = xLength \<and> fft_h_length f = hLength \<and> fft_reverse f = 0
     \<and> fft_inputs0 f = map junk1 [0..<xLength] @ replicate (nat (fft_M f + 2 - int xLength)) 0
     \<and> fft_inputs1 f = map junk2 [0..<hLength] @ replicate (nat (fft_M f + 2 - int hLength)) 0"
proof -
  have a: "0 < xLength" "0 < hLength" and le: "xLength + hLength - 1 \<le> 2 ^ 30"
    using convolve_fft_initialize_Inr [OF assms] by simp_all
  define T where "T = xLength + hLength - 1"
  have T: "0 < T" "T \<le> 2 ^ 30" using a le by (simp_all add: T_def)
  have Ti: "int T \<le> 2 ^ 30" using T(2) by (metis of_nat_le_iff of_nat_numeral of_nat_power)
  have e: "int xLength + int hLength - 1 = int T" using a by (simp add: T_def; linarith)
  have m0: "to_int (int (to_size_t (int xLength + int hLength - 1))) = int T"
    unfolding to_int_to_size_t e using Ti by (intro to_int_id) simp_all
  obtain k where k: "(if int T AND to_int (int T - 1) \<noteq> 0
              then (case shift_loop (int T) 1 of
                      None \<Rightarrow> Inl DoesNotReturn
                    | Some lg \<Rightarrow> Inr (to_int (2 ^ nat lg)))
              else Inr (int T)) = (Inr (2 ^ k) :: error + int)"
      "int T \<le> 2 ^ k"
    using fft_size_cases [OF T] by blast
  let ?M = "(2::int) ^ k"
  have bx: "0 \<le> int xLength" "int xLength \<le> ?M + 2" using k(2) a by (simp_all add: T_def)
  have bh: "0 \<le> int hLength" "int hLength \<le> ?M + 2" using k(2) a by (simp_all add: T_def)
  have "convolve_fft_initialize junk1 junk2 xLength hLength
      = Inr \<lparr>fft_M = ?M, fft_x_length = xLength, fft_h_length = hLength, fft_reverse = 0,
             fft_inputs0 = map junk1 [0..<nat (int xLength)] @ replicate (nat (?M + 2 - int xLength)) 0,
             fft_inputs1 = map junk2 [0..<nat (int hLength)] @ replicate (nat (?M + 2 - int hLength)) 0\<rparr>"
    unfolding convolve_fft_initialize_def Let_def m0 k(1)
    using a memsetf_mallocf [OF bx, of junk1 0] memsetf_mallocf [OF bh, of junk2 0]
    by (simp add: assertE_def)
  then have f: "f = \<lparr>fft_M = ?M, fft_x_length = xLength, fft_h_length = hLength, fft_reverse = 0,
             fft_inputs0 = map junk1 [0..<nat (int xLength)] @ replicate (nat (?M + 2 - int xLength)) 0,
             fft_inputs1 = map junk2 [0..<nat (int hLength)] @ replicate (nat (?M + 2 - int hLength)) 0\<rparr>"
    using assms by simp
  show ?thesis using a k(2) unfolding f T_def by auto
qed

text \<open>The first call on a handle as the initialiser returns it gives the direct
  convolution (for a transform size of at least 2).\<close>

lemma convolve_fft_fresh_correct:
  assumes "convolve_fft_initialize junk1 junk2 xLength hLength = Inr f"
    and "length x = xLength" "length h = hLength" "length result = xLength + hLength - 1"
    and "2 < xLength + hLength" "SIMD b \<longrightarrow> int (FLOAT_STEP b) \<le> fft_M f"
  shows "\<exists>f'. convolve_fft b f x h result = Inr (f', spec_convolution x h)"
proof -
  define T where "T = xLength + hLength - 1"
  obtain k where f: "0 < xLength" "0 < hLength" "fft_M f = 2 ^ k" "int T \<le> fft_M f"
      "fft_x_length f = xLength" "fft_h_length f = hLength" "fft_reverse f = 0"
      "fft_inputs0 f = map junk1 [0..<xLength] @ replicate (nat (fft_M f + 2 - int xLength)) 0"
      "fft_inputs1 f = map junk2 [0..<hLength] @ replicate (nat (fft_M f + 2 - int hLength)) 0"
    using convolve_fft_initialize_handle [OF assms(1)] unfolding T_def by blast
  have T2: "2 \<le> T" using assms(5) by (simp add: T_def)
  have "k \<noteq> 0" using f(3,4) T2 by (cases k) simp_all
  then obtain e where e: "k = Suc e" by (cases k) simp_all
  define m :: nat where "m = 2 ^ e"
  have Mt: "fft_M f = int (2 * m)" using f(3) e by (simp add: m_def)
  have m: "0 < m" by (simp add: m_def)
  have TL: "T \<le> 2 * m" using f(4) Mt by linarith
  have simd: "SIMD b \<longrightarrow> FLOAT_STEP b div 2 dvd m"
    using assms(6) float_step_dvd_pow [of b e] Mt by (simp add: m_def)
  let ?X0 = "fft_inputs0 f" and ?H0 = "fft_inputs1 f"
  have lX0: "length ?X0 = 2 * m + 2" and zX0: "\<forall>j. xLength \<le> j \<and> j < 2 * m + 2 \<longrightarrow> ?X0 ! j = 0"
    using f(1,2) TL unfolding f(8) Mt T_def by (auto simp add: nth_append)
  have lH0: "length ?H0 = 2 * m + 2" and zH0: "\<forall>j. hLength \<le> j \<and> j < 2 * m + 2 \<longrightarrow> ?H0 ! j = 0"
    using f(1,2) TL unfolding f(9) Mt T_def by (auto simp add: nth_append)
  obtain X1 where X1: "memcpy ?X0 (int 0) x (int 0) (int xLength) = Inr X1" "length X1 = length ?X0"
      "\<forall>j<length ?X0. X1 ! j = (if 0 \<le> j \<and> j < 0 + xLength then x ! (0 + (j - 0)) else ?X0 ! j)"
  proof -
    have "0 + xLength \<le> length x" "0 + xLength \<le> length ?X0"
      using assms(2) lX0 TL f(2) unfolding T_def by linarith+
    from memcpy_nth [OF this] show ?thesis using that by blast
  qed
  obtain H1 where H1: "memcpy ?H0 (int 0) h (int 0) (int hLength) = Inr H1" "length H1 = length ?H0"
      "\<forall>j<length ?H0. H1 ! j = (if 0 \<le> j \<and> j < 0 + hLength then h ! (0 + (j - 0)) else ?H0 ! j)"
  proof -
    have "0 + hLength \<le> length h" "0 + hLength \<le> length ?H0"
      using assms(3) lH0 TL f(1) unfolding T_def by linarith+
    from memcpy_nth [OF this] show ?thesis using that by blast
  qed
  have lX1: "length X1 = 2 * m + 2" using X1(2) lX0 by simp
  have lH1: "length H1 = 2 * m + 2" using H1(2) lH0 by simp
  have vX1: "\<forall>j<xLength. X1 ! j = x ! j" "\<forall>a. xLength \<le> a \<and> a < 2 * m \<longrightarrow> X1 ! a = 0"
    using X1(3) lX0 zX0 TL f(2) unfolding T_def by auto
  have vH1: "\<forall>j<hLength. H1 ! j = h ! j" "\<forall>c. hLength \<le> c \<and> c < 2 * m \<longrightarrow> H1 ! c = 0"
    using H1(3) lH0 zH0 TL f(1) unfolding T_def by auto
  obtain H2 where H2: "fftf_forward (int (2 * m)) H1 = Inr H2"
    using fftf_forward_ok [of "int (2 * m)" H1] m lH1 by auto
  obtain X2 X3 X4 where tr: "fftf_forward (int (2 * m)) X1 = Inr X2"
      "multiply_spectra b X2 H2 (int (2 * m)) = Inr X3"
      "fftf_backward (int (2 * m)) X3 = Inr X4" "length X4 = 2 * m + 2"
      "\<forall>n<2 * m. X4 ! n = real (2 * m) * circular_convolution (2 * m) X1 H1 n"
    using block_transform [OF simd m lX1 lH1 H2] by blast
  obtain out where out:
      "real_multiply_scalar X4 (int 0) (int T) (1 / real_of_int (int (2 * m))) result (int 0) = Inr out"
      "length out = length result"
      "\<forall>j<length result. out ! j = (if 0 \<le> j \<and> j < 0 + T
          then X4 ! (0 + (j - 0)) * (1 / real_of_int (int (2 * m))) else result ! j)"
  proof -
    have "0 + T \<le> length X4" "0 + T \<le> length result"
      using tr(4) TL assms(4) unfolding T_def by linarith+
    from real_multiply_scalar_nth [OF this] show ?thesis using that by blast
  qed
  have val: "out ! t = spec_out x h t" if "t < T" for t
  proof -
    have t: "t < 2 * m" using that TL by linarith
    have "out ! t = X4 ! t * (1 / real_of_int (int (2 * m)))"
      using out(3) that assms(4) unfolding T_def by simp
    also have "\<dots> = circular_convolution (2 * m) X1 H1 t" using tr(5) t m by simp
    also have "\<dots> = (\<Sum>c = 0..<hLength. H1 ! c * (if c \<le> t \<and> t - c < xLength then X1 ! (t - c) else 0))"
      using f(1,2) TL t vX1(2) vH1(2) unfolding T_def
      by (intro circular_convolution_padded) simp_all
    also have "\<dots> = (\<Sum>c = 0..<hLength. h ! c * zero_extended x (int t - int c))"
    proof (intro sum.cong refl)
      fix c assume "c \<in> {0..<hLength}"
      then have c: "c < hLength" by simp
      have "(if c \<le> t \<and> t - c < xLength then X1 ! (t - c) else 0) = zero_extended x (int t - int c)"
      proof (cases "c \<le> t \<and> t - c < xLength")
        case True
        then have "X1 ! (t - c) = x ! (t - c)" using vX1(1) by blast
        moreover have "zero_extended x (int t - int c) = x ! (t - c)"
          using True assms(2) by (intro zero_extended_inside) simp_all
        ultimately show ?thesis using True by simp
      next
        case False
        then have "int t - int c < 0 \<or> int (length x) \<le> int t - int c"
          using assms(2) by linarith
        then have "zero_extended x (int t - int c) = 0" by (rule zero_extended_outside)
        then show ?thesis using False by auto
      qed
      then show "H1 ! c * (if c \<le> t \<and> t - c < xLength then X1 ! (t - c) else 0)
          = h ! c * zero_extended x (int t - int c)"
        using vH1(1) c by simp
    qed
    also have "\<dots> = spec_out x h t" using assms(3) by (simp add: spec_out_zero_extended)
    finally show ?thesis .
  qed
  have res: "out = spec_convolution x h"
    using out(2) assms(2-4) val unfolding T_def
    by (intro nth_equalityI) (simp_all add: spec_convolution_def)
  have eT: "int xLength + int hLength - 1 = int T" using f(1) by (simp add: T_def)
  have "convolve_fft b f x h result = Inr (f\<lparr>fft_inputs0 := X4, fft_inputs1 := H2\<rparr>, out)"
    unfolding convolve_fft_def Let_def f(5,6,7) Mt eT
    using X1(1) H1(1) H2 tr(1-3) out(1) by simp
  then show ?thesis using res by blast
qed

end
